theory Spec2Isabelle
  imports Main "HOL-Library.FSet" "HOL-Library.Finite_Map"
    "HOL-Library.List_Lexorder" "HOL-Library.Char_ord"
begin

section \<open>Shared vocabulary\<close>

text \<open>
  Identifiers are Python strings. A \<open>WebSocket\<close> object is used by the code only through
  its identity (as a dictionary key, a set element, the operand of \<open>==\<close>) and as the
  target of \<open>send_text\<close>; it is modelled by a number naming the object. A \<open>datetime\<close>
  is a count of microseconds, the resolution of the Python type.

  A Python \<open>set\<close> is a finite set. The order in which a \<open>for\<close> loop visits a set is
  not fixed by the language, so every function with such a loop takes the enumeration
  \<open>it\<close> as a parameter: \<open>it S\<close> is the order in which \<open>S\<close> is visited.
\<close>

type_synonym user_id = string
type_synonym chat_id = string
type_synonym websocket = nat
type_synonym datetime = int

definition enumerates :: "('a fset \<Rightarrow> 'a list) \<Rightarrow> bool" where
  "enumerates it = (\<forall>S. fset_of_list (it S) = S \<and> distinct (it S))"

text \<open>Truthiness of an optional string: \<open>None\<close> and the empty string are false.\<close>

definition truthy :: "string option \<Rightarrow> bool" where
  "truthy x = (case x of None \<Rightarrow> False | Some v \<Rightarrow> v \<noteq> [])"

text \<open>What a function hands back when the source's \<open>return\<close> carries no value.\<close>

datatype py_value = PyNone | PyInt int

section \<open>The connection manager (src/websocket/connection\_manager.py)\<close>

record ConnectionManager =
  active_connections :: "user_id \<rightharpoonup> websocket"
  chat_participants :: "chat_id \<rightharpoonup> user_id fset"
  user_chats :: "user_id \<rightharpoonup> chat_id fset"
  typing_status :: "chat_id \<rightharpoonup> user_id fset"
  typing_timestamps :: "user_id \<rightharpoonup> (chat_id, datetime) fmap"

definition init_manager :: ConnectionManager where
  "init_manager = \<lparr>active_connections = Map.empty, chat_participants = Map.empty,
     user_chats = Map.empty, typing_status = Map.empty, typing_timestamps = Map.empty\<rparr>"

text \<open>
  Two idioms recur in the class.
  \<^verbatim>\<open>if k not in d: d[k] = set()\<close> followed by \<^verbatim>\<open>d[k].add(v)\<close>, and
  \<^verbatim>\<open>if k in d: d[k].discard(v); if not d[k]: del d[k]\<close>.
\<close>

definition dict_add :: "('k \<rightharpoonup> 'v fset) \<Rightarrow> 'k \<Rightarrow> 'v \<Rightarrow> ('k \<rightharpoonup> 'v fset)" where
  "dict_add d k v =
     (let d1 = (if d k = None then d(k \<mapsto> {||}) else d)
      in case d1 k of None \<Rightarrow> d1 | Some S \<Rightarrow> d1(k \<mapsto> finsert v S))"

definition dict_discard :: "('k \<rightharpoonup> 'v fset) \<Rightarrow> 'k \<Rightarrow> 'v \<Rightarrow> ('k \<rightharpoonup> 'v fset)" where
  "dict_discard d k v =
     (case d k of None \<Rightarrow> d
      | Some S \<Rightarrow> (let S' = S |-| {|v|}
                   in if S' = {||} then d(k := None) else d(k \<mapsto> S')))"

text \<open>\<^verbatim>\<open>if u in d: d[u].pop(c, None); if not d[u]: del d[u]\<close> on the timestamp table.\<close>

definition timestamps_pop ::
  "(user_id \<rightharpoonup> (chat_id, datetime) fmap) \<Rightarrow> user_id \<Rightarrow> chat_id
     \<Rightarrow> (user_id \<rightharpoonup> (chat_id, datetime) fmap)" where
  "timestamps_pop d u c =
     (case d u of None \<Rightarrow> d
      | Some m \<Rightarrow> (let m' = fmdrop c m
                   in if m' = fmempty then d(u := None) else d(u \<mapsto> m')))"

text \<open>\<open>d.get(k, set())\<close>.\<close>

definition get_set :: "('k \<rightharpoonup> 'v fset) \<Rightarrow> 'k \<Rightarrow> 'v fset" where
  "get_set d k = (case d k of None \<Rightarrow> {||} | Some S \<Rightarrow> S)"

text \<open>
  \<open>connect\<close>: \<open>websocket.accept()\<close> may raise, and the exception is re-raised before the
  connection is stored. Whether the accept succeeds is the argument \<open>accepted\<close>.
\<close>

datatype error = TransportError | RuntimeError | KeyError | NameError | AttributeError

definition connect :: "bool \<Rightarrow> websocket \<Rightarrow> user_id \<Rightarrow> ConnectionManager
    \<Rightarrow> error + ConnectionManager" where
  "connect accepted ws u s =
     (if accepted then Inr (s\<lparr>active_connections := (active_connections s)(u \<mapsto> ws)\<rparr>)
      else Inl TransportError)"

definition join_chat :: "user_id \<Rightarrow> chat_id \<Rightarrow> ConnectionManager \<Rightarrow> ConnectionManager" where
  "join_chat u c s =
     (let s1 = s\<lparr>chat_participants := dict_add (chat_participants s) c u\<rparr>
      in s1\<lparr>user_chats := dict_add (user_chats s1) u c\<rparr>)"

definition leave_chat :: "user_id \<Rightarrow> chat_id \<Rightarrow> ConnectionManager \<Rightarrow> ConnectionManager" where
  "leave_chat u c s =
     (let s1 = s\<lparr>chat_participants := dict_discard (chat_participants s) c u\<rparr>;
          s2 = s1\<lparr>user_chats := dict_discard (user_chats s1) u c\<rparr>;
          s3 = s2\<lparr>typing_status := dict_discard (typing_status s2) c u\<rparr>
      in s3\<lparr>typing_timestamps := timestamps_pop (typing_timestamps s3) u c\<rparr>)"

text \<open>
  \<open>set_typing_status\<close>; \<open>now\<close> is the value of \<open>datetime.utcnow()\<close>. None of the
  dictionary operations in its \<open>try\<close> block can raise.
\<close>

definition set_typing_status ::
  "datetime \<Rightarrow> user_id \<Rightarrow> chat_id \<Rightarrow> bool \<Rightarrow> ConnectionManager \<Rightarrow> ConnectionManager" where
  "set_typing_status now u c is_typing s =
     (if is_typing then
        (let s1 = s\<lparr>typing_status := dict_add (typing_status s) c u\<rparr>;
             tt = typing_timestamps s1;
             tt1 = (if tt u = None then tt(u \<mapsto> fmempty) else tt)
         in s1\<lparr>typing_timestamps :=
              (case tt1 u of None \<Rightarrow> tt1 | Some m \<Rightarrow> tt1(u \<mapsto> fmupd c now m))\<rparr>)
      else
        (let s1 = s\<lparr>typing_status := dict_discard (typing_status s) c u\<rparr>
         in s1\<lparr>typing_timestamps := timestamps_pop (typing_timestamps s1) u c\<rparr>))"

text \<open>
  \<open>disconnect\<close>. The first loop runs over a copy of \<open>user_chats[user_id]\<close>, the second
  over the items of \<open>typing_timestamps[user_id]\<close> as they are after the first loop. The
  body of the second loop is \<open>dict_discard\<close> on \<open>typing_status\<close>. Nothing in the
  \<open>try\<close> block can raise.
\<close>

definition disconnect ::
  "(string fset \<Rightarrow> string list) \<Rightarrow> user_id \<Rightarrow> ConnectionManager \<Rightarrow> ConnectionManager" where
  "disconnect it u s =
     (let s1 = s\<lparr>active_connections := (active_connections s)(u := None)\<rparr>;
          chats = get_set (user_chats s1) u;
          s2 = fold (\<lambda>c. leave_chat u c) (it chats) s1
      in case typing_timestamps s2 u of
           None \<Rightarrow> s2
         | Some m \<Rightarrow>
             (let s3 = fold (\<lambda>c t. t\<lparr>typing_status := dict_discard (typing_status t) c u\<rparr>)
                         (it (fmdom m)) s2
              in s3\<lparr>typing_timestamps := (typing_timestamps s3)(u := None)\<rparr>))"

text \<open>
  \<open>send_personal_message\<close>. \<open>dead\<close> is the set of sockets on which \<open>send_text\<close>
  raises. The result is the returned flag, the new state, and the frames that were
  written, each with the socket it went to.
\<close>

definition send_personal_message ::
  "(string fset \<Rightarrow> string list) \<Rightarrow> websocket set \<Rightarrow> user_id \<Rightarrow> 'd \<Rightarrow> ConnectionManager
     \<Rightarrow> bool \<times> ConnectionManager \<times> (websocket \<times> 'd) list" where
  "send_personal_message it dead u data s =
     (case active_connections s u of
        None \<Rightarrow> (False, s, [])
      | Some ws \<Rightarrow>
          if ws \<in> dead then (False, disconnect it u s, [])
          else (True, s, [(ws, data)]))"

text \<open>
  The loop of \<open>broadcast_to_chat\<close>: state, frames written so far, and the list
  \<open>disconnected_users\<close>.
\<close>

fun broadcast_loop ::
  "(string fset \<Rightarrow> string list) \<Rightarrow> websocket set \<Rightarrow> 'd \<Rightarrow> user_id list
     \<Rightarrow> ConnectionManager \<times> (websocket \<times> 'd) list \<times> user_id list
     \<Rightarrow> ConnectionManager \<times> (websocket \<times> 'd) list \<times> user_id list" where
  "broadcast_loop it dead data [] acc = acc"
| "broadcast_loop it dead data (u # us) (s, out, disconnected_users) =
     (case send_personal_message it dead u data s of
        (success, s', frames) \<Rightarrow>
          broadcast_loop it dead data us
            (s', out @ frames,
             if success then disconnected_users else disconnected_users @ [u]))"

text \<open>
  \<open>broadcast_to_chat\<close>. Both exits of the source are a bare \<open>return\<close> or the end of
  the body: the caller receives \<open>None\<close>.
\<close>

definition broadcast_to_chat ::
  "(string fset \<Rightarrow> string list) \<Rightarrow> websocket set \<Rightarrow> chat_id \<Rightarrow> 'd \<Rightarrow> user_id option
     \<Rightarrow> ConnectionManager \<Rightarrow> py_value \<times> ConnectionManager \<times> (websocket \<times> 'd) list" where
  "broadcast_to_chat it dead c data exclude_user s =
     (let participants0 = get_set (chat_participants s) c;
          participants = (if truthy exclude_user
                          then participants0 |-| {|the exclude_user|} else participants0)
      in if participants = {||} then (PyNone, s, [])
         else
           (case broadcast_loop it dead data (it participants) (s, [], []) of
              (s1, out, disconnected_users) \<Rightarrow>
                (PyNone, fold (\<lambda>u. leave_chat u c) disconnected_users s1, out)))"

text \<open>
  \<open>get_typing_users\<close>. \<open>now\<close> is \<open>datetime.utcnow()\<close>. The source compares
  \<open>time_diff.total_seconds() <= expiry_seconds\<close>; on microsecond counts this is
  \<open>now - t \<le> expiry_seconds * 1000000\<close>. (\<open>total_seconds\<close> is the microsecond
  count divided by a million as a float; the model compares the exact quotient.)
\<close>

definition timestamp_of :: "ConnectionManager \<Rightarrow> user_id \<Rightarrow> chat_id \<Rightarrow> datetime option" where
  "timestamp_of s u c =
     (case typing_timestamps s u of None \<Rightarrow> None | Some m \<Rightarrow> fmlookup m c)"

definition within_expiry :: "datetime \<Rightarrow> int \<Rightarrow> datetime \<Rightarrow> bool" where
  "within_expiry now expiry_seconds t = (now - t \<le> expiry_seconds * 1000000)"

definition get_typing_users ::
  "(string fset \<Rightarrow> string list) \<Rightarrow> datetime \<Rightarrow> chat_id \<Rightarrow> int \<Rightarrow> ConnectionManager
     \<Rightarrow> user_id list \<times> ConnectionManager" where
  "get_typing_users it now c expiry_seconds s =
     (case typing_status s c of
        None \<Rightarrow> ([], s)
      | Some typing \<Rightarrow>
          (let visited = it typing;
               active_typing_users =
                 filter (\<lambda>u. case timestamp_of s u c of
                               None \<Rightarrow> False
                             | Some t \<Rightarrow> within_expiry now expiry_seconds t) visited;
               expired_users =
                 filter (\<lambda>u. case timestamp_of s u c of
                               None \<Rightarrow> False
                             | Some t \<Rightarrow> \<not> within_expiry now expiry_seconds t) visited
           in (active_typing_users,
               fold (\<lambda>u. set_typing_status now u c False) expired_users s)))"

subsection \<open>Runs of the manager\<close>

datatype 'd manager_op =
    Connect bool websocket user_id
  | Disconnect user_id
  | JoinChat user_id chat_id
  | LeaveChat user_id chat_id
  | SetTyping datetime user_id chat_id bool
  | GetTypingUsers datetime chat_id int
  | SendPersonal "websocket set" user_id 'd
  | BroadcastToChat "websocket set" chat_id 'd "user_id option"

fun apply_op :: "(string fset \<Rightarrow> string list) \<Rightarrow> 'd manager_op \<Rightarrow> ConnectionManager
    \<Rightarrow> ConnectionManager" where
  "apply_op it (Connect accepted ws u) s =
     (case connect accepted ws u s of Inl e \<Rightarrow> s | Inr s' \<Rightarrow> s')"
| "apply_op it (Disconnect u) s = disconnect it u s"
| "apply_op it (JoinChat u c) s = join_chat u c s"
| "apply_op it (LeaveChat u c) s = leave_chat u c s"
| "apply_op it (SetTyping now u c b) s = set_typing_status now u c b s"
| "apply_op it (GetTypingUsers now c e) s = snd (get_typing_users it now c e s)"
| "apply_op it (SendPersonal dead u data) s = fst (snd (send_personal_message it dead u data s))"
| "apply_op it (BroadcastToChat dead c data ex) s =
     fst (snd (broadcast_to_chat it dead c data ex s))"

definition run_ops :: "(string fset \<Rightarrow> string list) \<Rightarrow> 'd manager_op list \<Rightarrow> ConnectionManager
    \<Rightarrow> ConnectionManager" where
  "run_ops it ops s = fold (apply_op it) ops s"

text \<open>Membership as the code reads it: \<open>c in d and u in d[c]\<close>.\<close>

definition member_of :: "('k \<rightharpoonup> 'v fset) \<Rightarrow> 'k \<Rightarrow> 'v \<Rightarrow> bool" where
  "member_of d k v = (case d k of None \<Rightarrow> False | Some S \<Rightarrow> v |\<in>| S)"

definition index_consistent :: "ConnectionManager \<Rightarrow> bool" where
  "index_consistent s =
     (\<forall>u c. member_of (chat_participants s) c u = member_of (user_chats s) u c)"

section \<open>The legacy transport (src/websocket/websocket.py)\<close>

text \<open>
  The module keeps its state in global dictionaries and sets. A tracking record is the
  dictionary stored under a message id; its \<open>message_data\<close> entry is not inspected by
  the code apart from the timestamp, which is also the \<open>timestamp\<close> entry.
\<close>

record message_info =
  sender_ws :: websocket
  sender_id :: user_id
  receiver_id :: "user_id option"
  status :: string
  timestamp :: string
  recipients :: "websocket fset"
  delivered_to :: "websocket fset"
  read_by :: "websocket fset"

text \<open>
  \<open>serving\<close> and \<open>next_socket\<close> are the control state of \<open>websocket_handler\<close>: the
  sockets whose handler is inside its receive loop, and the name of the next
  \<open>WebSocket\<close> object to be created.
\<close>

record legacy =
  connected_clients :: "websocket fset"
  authenticated_users :: "websocket \<rightharpoonup> user_id"
  user_connections :: "user_id \<rightharpoonup> websocket"
  message_tracking :: "(string, message_info) fmap"
  user_last_read_time :: "websocket \<rightharpoonup> string"
  typing_users :: "chat_id \<rightharpoonup> user_id fset"
  user_typing_in :: "user_id \<rightharpoonup> chat_id"
  serving :: "websocket fset"
  next_socket :: websocket

definition init_legacy :: legacy where
  "init_legacy = \<lparr>connected_clients = {||}, authenticated_users = Map.empty,
     user_connections = Map.empty, message_tracking = fmempty,
     user_last_read_time = Map.empty, typing_users = Map.empty,
     user_typing_in = Map.empty, serving = {||}, next_socket = 0\<rparr>"

text \<open>
  The claims of a decoded token, and what the module needs from outside: the JWT
  library (\<open>None\<close> when \<open>jwt.decode\<close> raises \<open>JWTError\<close>), the comparison of two ISO
  timestamps (\<open>not_before a b\<close> holds when both parse and \<open>a >= b\<close>; a parse failure
  or incomparable values raise inside a \<open>try\<close> whose handler only logs), and the
  orders in which sets of sockets and dictionaries keyed by message id are visited.
\<close>

record token_payload =
  sub :: "string option"
  role :: "string option"
  permissions :: "string list option"

record environment =
  jwt_decode :: "string \<Rightarrow> token_payload option"
  not_before :: "string \<Rightarrow> string \<Rightarrow> bool"
  visit_ids :: "string fset \<Rightarrow> string list"
  visit_sockets :: "websocket fset \<Rightarrow> websocket list"

text \<open>\<open>verify_token\<close> of src/auth/dependencies.py: the subject of the payload.\<close>

definition verify_token :: "(string \<Rightarrow> token_payload option) \<Rightarrow> string \<Rightarrow> string option" where
  "verify_token decode token = (case decode token of None \<Rightarrow> None | Some payload \<Rightarrow> sub payload)"

text \<open>
  An outbound JSON document, reduced to the fields that tell documents apart:
  \<open>Reply n m\<close> is \<^verbatim>\<open>{"status": n, "message": m}\<close>; \<open>Event n e xs\<close> carries the
  status \<open>n\<close> (0 when the document has none), the event name and the identifying
  values of its \<open>event_data\<close>.
\<close>

datatype frame = Reply nat string | Event nat string "string list"

type_synonym outbox = "(websocket \<times> frame) list"
type_synonym 's outcome = "error option \<times> 's \<times> outbox"

text \<open>
  \<open>send_text\<close> raises on a dead socket. \<open>and_then\<close> is sequencing: an exception skips
  the rest. \<open>caught\<close> is \<^verbatim>\<open>try: ... except Exception: log\<close>.
\<close>

definition send_text :: "websocket set \<Rightarrow> websocket \<Rightarrow> frame \<Rightarrow> 's \<Rightarrow> 's outcome" where
  "send_text dead ws f s = (if ws \<in> dead then (Some TransportError, s, []) else (None, s, [(ws, f)]))"

definition and_then :: "'s outcome \<Rightarrow> ('s \<Rightarrow> 's outcome) \<Rightarrow> 's outcome" where
  "and_then r k =
     (case r of
        (Some e, s, out) \<Rightarrow> (Some e, s, out)
      | (None, s, out) \<Rightarrow> (case k s of (e, s', out') \<Rightarrow> (e, s', out @ out')))"

definition caught :: "'s outcome \<Rightarrow> 's outcome" where
  "caught r = (case r of (e, s, out) \<Rightarrow> (None, s, out))"

definition unchanged :: "'s \<Rightarrow> 's outcome" where
  "unchanged s = (None, s, [])"

text \<open>Updating the record stored under a message id, when there is one.\<close>

definition update_info :: "string \<Rightarrow> (message_info \<Rightarrow> message_info) \<Rightarrow> legacy \<Rightarrow> legacy" where
  "update_info mid f s =
     (case fmlookup (message_tracking s) mid of
        None \<Rightarrow> s
      | Some info \<Rightarrow> s\<lparr>message_tracking := fmupd mid (f info) (message_tracking s)\<rparr>)"

definition handle_login :: "environment \<Rightarrow> websocket set \<Rightarrow> websocket \<Rightarrow> string \<Rightarrow> legacy
    \<Rightarrow> legacy outcome \<times> bool" where
  "handle_login env dead ws token s =
     (let user = verify_token (jwt_decode env) token
      in if truthy user then
           (send_text dead ws (Event 200 ''auth success'' [the user])
              (s\<lparr>authenticated_users := (authenticated_users s)(ws \<mapsto> the user),
                 user_connections := (user_connections s)(the user \<mapsto> ws)\<rparr>),
            True)
         else (send_text dead ws (Reply 403 ''Authentication failed'') s, False))"

definition auto_check_read_status ::
  "environment \<Rightarrow> websocket set \<Rightarrow> websocket \<Rightarrow> string \<Rightarrow> string \<Rightarrow> legacy \<Rightarrow> legacy outcome" where
  "auto_check_read_status env dead recipient_ws message_id message_timestamp s =
     (case (user_last_read_time s recipient_ws, fmlookup (message_tracking s) message_id) of
        (Some last_read_time, Some info) \<Rightarrow>
          (let recipient_id = authenticated_users s recipient_ws
           in if \<not> truthy recipient_id \<or> recipient_ws |\<in>| read_by info then unchanged s
              else if not_before env last_read_time message_timestamp then
                (let s1 = update_info message_id
                            (\<lambda>i. i\<lparr>read_by := finsert recipient_ws (read_by i)\<rparr>) s
                 in if sender_ws info |\<in>| connected_clients s1
                    then caught (send_text dead (sender_ws info)
                           (Event 0 ''message_read'' [message_id, the recipient_id, ''auto_read'']) s1)
                    else unchanged s1)
              else unchanged s)
      | _ \<Rightarrow> unchanged s)"

definition deliver_to_user ::
  "environment \<Rightarrow> websocket set \<Rightarrow> string \<Rightarrow> user_id \<Rightarrow> legacy \<Rightarrow> legacy outcome" where
  "deliver_to_user env dead message_id receiver s =
     (case fmlookup (message_tracking s) message_id of
        None \<Rightarrow> (Some KeyError, s, [])
      | Some info \<Rightarrow>
          (case user_connections s receiver of
             Some receiver_ws \<Rightarrow>
               caught
                 (and_then (send_text dead receiver_ws (Event 0 ''receive_message'' [message_id]) s)
                    (\<lambda>s. and_then
                       (send_text dead (sender_ws info)
                          (Event 0 ''message_status_update'' [message_id, receiver, ''delivered''])
                          (update_info message_id
                             (\<lambda>i. i\<lparr>recipients := finsert receiver_ws (recipients i),
                                     delivered_to := finsert receiver_ws (delivered_to i),
                                     status := ''delivered''\<rparr>) s))
                       (auto_check_read_status env dead receiver_ws message_id (timestamp info))))
           | None \<Rightarrow>
               send_text dead (sender_ws info)
                 (Event 0 ''message_status'' [message_id, receiver, ''sent'', ''user_offline'']) s))"

text \<open>
  The loop of \<open>broadcast_message\<close> runs over the set \<open>connected_clients\<close> itself. Its
  exception handler removes the failing socket from that set, and a Python set whose size
  changed raises \<open>RuntimeError\<close> when the loop asks for the next element: the loop ends
  there, outside any \<open>try\<close>. The accumulator is the state, \<open>recipients_count\<close> and
  the frames written.
\<close>

fun broadcast_message_loop ::
  "environment \<Rightarrow> websocket set \<Rightarrow> websocket \<Rightarrow> string \<Rightarrow> string \<Rightarrow> websocket list
     \<Rightarrow> legacy \<Rightarrow> nat \<Rightarrow> outbox \<Rightarrow> error option \<times> legacy \<times> nat \<times> outbox" where
  "broadcast_message_loop env dead sender mid ts [] s n out = (None, s, n, out)"
| "broadcast_message_loop env dead sender mid ts (client_ws # rest) s n out =
     (if client_ws \<noteq> sender \<and> authenticated_users s client_ws \<noteq> None then
        (if client_ws \<in> dead then
           (Some RuntimeError,
            s\<lparr>connected_clients := connected_clients s |-| {|client_ws|}\<rparr>, n, out)
         else
           (case auto_check_read_status env dead client_ws mid ts
                   (update_info mid (\<lambda>i. i\<lparr>recipients := finsert client_ws (recipients i)\<rparr>) s) of
              (e, s', out') \<Rightarrow>
                broadcast_message_loop env dead sender mid ts rest s' (Suc n)
                  (out @ [(client_ws, Event 0 ''receive_message'' [mid])] @ out')))
      else broadcast_message_loop env dead sender mid ts rest s n out)"

definition broadcast_message ::
  "environment \<Rightarrow> websocket set \<Rightarrow> websocket \<Rightarrow> string \<Rightarrow> string \<Rightarrow> legacy \<Rightarrow> legacy outcome" where
  "broadcast_message env dead sender mid ts s =
     (case fmlookup (message_tracking s) mid of
        None \<Rightarrow> (Some KeyError, s, [])
      | Some info \<Rightarrow>
          (case broadcast_message_loop env dead sender mid ts
                  (visit_sockets env (connected_clients s)) s 0 [] of
             (Some e, s', n, out) \<Rightarrow> (Some e, s', out)
           | (None, s', n, out) \<Rightarrow>
               if 0 < n then
                 and_then (None, update_info mid (\<lambda>i. i\<lparr>status := ''delivered''\<rparr>) s', out)
                   (send_text dead sender (Event 0 ''message_broadcast'' [mid, ''delivered'']))
               else (None, s', out)))"

text \<open>
  The fields of a \<open>send_chat\<close> event that the handler reads. \<open>now\<close> is
  \<open>datetime.now().isoformat()\<close>.
\<close>

record send_chat_data =
  sc_id :: "string option"
  sc_receiver_id :: "string option"
  sc_timestamp :: "string option"

definition handle_send_chat ::
  "environment \<Rightarrow> websocket set \<Rightarrow> string \<Rightarrow> websocket \<Rightarrow> send_chat_data \<Rightarrow> legacy
     \<Rightarrow> legacy outcome" where
  "handle_send_chat env dead now ws event_data s =
     (case authenticated_users s ws of
        None \<Rightarrow> send_text dead ws (Reply 401 ''Not authenticated'') s
      | Some sender \<Rightarrow>
          if \<not> truthy (sc_id event_data)
          then send_text dead ws (Reply 400 ''message_id is required'') s
          else
            (let message_id = the (sc_id event_data);
                 message_timestamp = (case sc_timestamp event_data of None \<Rightarrow> now | Some t \<Rightarrow> t);
                 s1 = s\<lparr>message_tracking :=
                        fmupd message_id
                          \<lparr>sender_ws = ws, sender_id = sender,
                           receiver_id = sc_receiver_id event_data, status = ''sent'',
                           timestamp = message_timestamp, recipients = {||},
                           delivered_to = {||}, read_by = {||}\<rparr>
                          (message_tracking s)\<rparr>
             in and_then (send_text dead ws (Event 200 ''message_sent'' [message_id, ''sent'']) s1)
                  (\<lambda>s. if truthy (sc_receiver_id event_data)
                       then deliver_to_user env dead message_id (the (sc_receiver_id event_data)) s
                       else broadcast_message env dead ws message_id message_timestamp s)))"

definition handle_message_read ::
  "websocket set \<Rightarrow> websocket \<Rightarrow> string option \<Rightarrow> legacy \<Rightarrow> legacy outcome" where
  "handle_message_read dead ws message_id s =
     (case authenticated_users s ws of
        None \<Rightarrow> send_text dead ws (Reply 401 ''Not authenticated'') s
      | Some reader \<Rightarrow>
          (case (if truthy message_id then fmlookup (message_tracking s) (the message_id)
                 else None) of
             None \<Rightarrow> send_text dead ws (Reply 404 ''Message not found'') s
           | Some info \<Rightarrow>
               if ws = sender_ws info
               then send_text dead ws (Reply 403 ''Cannot mark own message as read'') s
               else
                 and_then
                   (send_text dead ws (Event 200 ''read_confirmed'' [the message_id])
                      (update_info (the message_id)
                         (\<lambda>i. i\<lparr>read_by := finsert ws (read_by i)\<rparr>) s))
                   (\<lambda>s. if sender_ws info |\<in>| connected_clients s
                        then send_text dead (sender_ws info)
                               (Event 0 ''message_read'' [the message_id, reader, ''manual_read'']) s
                        else unchanged s)))"

text \<open>
  The loop of \<open>check_all_messages_for_auto_read\<close> over the items of \<open>message_tracking\<close>;
  its body is one \<open>try\<close> block whose handler only logs.
\<close>

fun auto_read_loop ::
  "environment \<Rightarrow> websocket set \<Rightarrow> websocket \<Rightarrow> user_id \<Rightarrow> string \<Rightarrow> string list
     \<Rightarrow> legacy \<Rightarrow> outbox \<Rightarrow> legacy \<times> outbox" where
  "auto_read_loop env dead ws reader last_read_time [] s out = (s, out)"
| "auto_read_loop env dead ws reader last_read_time (mid # rest) s out =
     (case fmlookup (message_tracking s) mid of
        None \<Rightarrow> auto_read_loop env dead ws reader last_read_time rest s out
      | Some info \<Rightarrow>
          if ws \<noteq> sender_ws info \<and> ws |\<notin>| read_by info \<and> ws |\<in>| recipients info
             \<and> not_before env last_read_time (timestamp info)
          then
            (let s1 = update_info mid (\<lambda>i. i\<lparr>read_by := finsert ws (read_by i)\<rparr>) s
             in if sender_ws info |\<in>| connected_clients s1 \<and> sender_ws info \<notin> dead
                then auto_read_loop env dead ws reader last_read_time rest s1
                       (out @ [(sender_ws info, Event 0 ''message_read'' [mid, reader, ''auto_read''])])
                else auto_read_loop env dead ws reader last_read_time rest s1 out)
          else auto_read_loop env dead ws reader last_read_time rest s out)"

definition check_all_messages_for_auto_read ::
  "environment \<Rightarrow> websocket set \<Rightarrow> websocket \<Rightarrow> string \<Rightarrow> legacy \<Rightarrow> legacy outcome" where
  "check_all_messages_for_auto_read env dead ws last_read_time s =
     (if \<not> truthy (authenticated_users s ws) then unchanged s
      else (case auto_read_loop env dead ws (the (authenticated_users s ws)) last_read_time
                   (visit_ids env (fmdom (message_tracking s))) s [] of
              (s', out) \<Rightarrow> (None, s', out)))"

definition handle_update_last_read_time ::
  "environment \<Rightarrow> websocket set \<Rightarrow> websocket \<Rightarrow> string option \<Rightarrow> legacy \<Rightarrow> legacy outcome" where
  "handle_update_last_read_time env dead ws last_message_time s =
     (if authenticated_users s ws = None then unchanged s
      else if truthy last_message_time then
        check_all_messages_for_auto_read env dead ws (the last_message_time)
          (s\<lparr>user_last_read_time := (user_last_read_time s)(ws \<mapsto> the last_message_time)\<rparr>)
      else unchanged s)"

definition handle_status_check ::
  "websocket set \<Rightarrow> websocket \<Rightarrow> user_id option \<Rightarrow> legacy \<Rightarrow> legacy outcome" where
  "handle_status_check dead ws target s =
     (if authenticated_users s ws = None then unchanged s
      else send_text dead ws
             (Event 0 ''user_status''
                [case target of None \<Rightarrow> [] | Some t \<Rightarrow> t,
                 if (case target of None \<Rightarrow> False | Some t \<Rightarrow> user_connections s t \<noteq> None)
                 then ''online'' else ''offline'']) s)"

text \<open>
  \<open>broadcast_typing_event\<close>: the loop only sends, collecting the sockets whose send
  raised; they are removed from \<open>connected_clients\<close> after the loop.
\<close>

definition broadcast_typing_event ::
  "environment \<Rightarrow> websocket set \<Rightarrow> chat_id \<Rightarrow> user_id \<Rightarrow> string \<Rightarrow> legacy \<Rightarrow> legacy \<times> outbox" where
  "broadcast_typing_event env dead c typing_user_id event_name s =
     (let targets = filter (\<lambda>client_ws. case authenticated_users s client_ws of
                                        None \<Rightarrow> False | Some u \<Rightarrow> u \<noteq> typing_user_id)
                      (visit_sockets env (connected_clients s));
          disconnected_users = filter (\<lambda>client_ws. client_ws \<in> dead) targets
      in (fold (\<lambda>client_ws t. t\<lparr>connected_clients := connected_clients t |-| {|client_ws|}\<rparr>)
            disconnected_users s,
          map (\<lambda>client_ws. (client_ws, Event 0 event_name [c, typing_user_id]))
            (filter (\<lambda>client_ws. client_ws \<notin> dead) targets)))"

definition handle_typing_start ::
  "environment \<Rightarrow> websocket set \<Rightarrow> websocket \<Rightarrow> chat_id option \<Rightarrow> legacy \<Rightarrow> legacy outcome" where
  "handle_typing_start env dead ws chat s =
     (case authenticated_users s ws of
        None \<Rightarrow> send_text dead ws (Reply 401 ''Not authenticated'') s
      | Some u \<Rightarrow>
          if \<not> truthy chat
          then send_text dead ws (Reply 400 ''chat_id is required for typing events'') s
          else
            (let c = the chat;
                 s1 = s\<lparr>typing_users := dict_add (typing_users s) c u\<rparr>;
                 s2 = s1\<lparr>user_typing_in := (user_typing_in s1)(u \<mapsto> c)\<rparr>
             in and_then (send_text dead ws (Event 200 ''typing_start_ack'' [c, u]) s2)
                  (\<lambda>s. case broadcast_typing_event env dead c u ''typing_start'' s of
                         (s', out) \<Rightarrow> (None, s', out))))"

definition handle_typing_stop ::
  "environment \<Rightarrow> websocket set \<Rightarrow> websocket \<Rightarrow> chat_id option \<Rightarrow> legacy \<Rightarrow> legacy outcome" where
  "handle_typing_stop env dead ws chat s =
     (case authenticated_users s ws of
        None \<Rightarrow> send_text dead ws (Reply 401 ''Not authenticated'') s
      | Some u \<Rightarrow>
          if \<not> truthy chat
          then send_text dead ws (Reply 400 ''chat_id is required for typing events'') s
          else
            (let c = the chat;
                 s1 = s\<lparr>typing_users := dict_discard (typing_users s) c u\<rparr>;
                 s2 = (if user_typing_in s1 u = Some c
                       then s1\<lparr>user_typing_in := (user_typing_in s1)(u := None)\<rparr> else s1)
             in and_then (send_text dead ws (Event 200 ''typing_stop_ack'' [c, u]) s2)
                  (\<lambda>s. case broadcast_typing_event env dead c u ''typing_stop'' s of
                         (s', out) \<Rightarrow> (None, s', out))))"

text \<open>
  \<open>cleanup_connection\<close>. The loop over \<open>message_tracking.values()\<close> changes each record
  on its own, so it is the same change applied to every record. The final
  \<open>websocket.close()\<close> sits in a \<open>try\<close> with a bare \<open>except\<close>. Nothing here raises.
\<close>

definition cleanup_connection ::
  "environment \<Rightarrow> websocket set \<Rightarrow> websocket \<Rightarrow> legacy \<Rightarrow> legacy \<times> outbox" where
  "cleanup_connection env dead ws s =
     (let s1 = s\<lparr>connected_clients := connected_clients s |-| {|ws|}\<rparr>;
          (s4, out) =
            (case authenticated_users s1 ws of
               None \<Rightarrow> (s1, [])
             | Some u \<Rightarrow>
                 (let s2 = s1\<lparr>user_connections := (user_connections s1)(u := None),
                              authenticated_users := (authenticated_users s1)(ws := None)\<rparr>
                  in case user_typing_in s2 u of
                       None \<Rightarrow> (s2, [])
                     | Some c \<Rightarrow>
                         (let s3 = s2\<lparr>typing_users := dict_discard (typing_users s2) c u\<rparr>
                          in broadcast_typing_event env dead c u ''typing_stop''
                               (s3\<lparr>user_typing_in := (user_typing_in s3)(u := None)\<rparr>))));
          s5 = s4\<lparr>user_last_read_time := (user_last_read_time s4)(ws := None)\<rparr>
      in (s5\<lparr>message_tracking :=
              fmmap (\<lambda>i. i\<lparr>recipients := recipients i |-| {|ws|},
                            delivered_to := delivered_to i |-| {|ws|},
                            read_by := read_by i |-| {|ws|}\<rparr>) (message_tracking s5)\<rparr>,
          out))"

subsection \<open>The receive loop\<close>

text \<open>
  A decoded inbound event, with the fields its handler reads. \<open>websocket_handler\<close>
  dispatches on the event name; a handler that raises, or a failed login, ends the loop,
  and the \<open>finally\<close> clause runs \<open>cleanup_connection\<close> for the socket of that loop.
  A frame that \<open>parse_event\<close> rejects is answered with one error reply and changes
  nothing, as an event with an unknown name does; a frame whose JSON is not an object
  makes the loop raise, which has the effect of \<open>Disconnected\<close> below.
\<close>

datatype client_event =
    Login string
  | SendChat send_chat_data
  | TypingStart "chat_id option"
  | TypingStop "chat_id option"
  | MessageRead "string option"
  | UpdateLastReadTime "string option"
  | StatusCheck "user_id option"
  | UnknownEvent string

fun dispatch :: "environment \<Rightarrow> websocket set \<Rightarrow> string \<Rightarrow> websocket \<Rightarrow> client_event \<Rightarrow> legacy
    \<Rightarrow> legacy outcome \<times> bool" where
  "dispatch env dead now ws (Login token) s = handle_login env dead ws token s"
| "dispatch env dead now ws (SendChat d) s = (handle_send_chat env dead now ws d s, True)"
| "dispatch env dead now ws (TypingStart c) s = (handle_typing_start env dead ws c s, True)"
| "dispatch env dead now ws (TypingStop c) s = (handle_typing_stop env dead ws c s, True)"
| "dispatch env dead now ws (MessageRead m) s = (handle_message_read dead ws m s, True)"
| "dispatch env dead now ws (UpdateLastReadTime t) s =
     (handle_update_last_read_time env dead ws t s, True)"
| "dispatch env dead now ws (StatusCheck u) s = (handle_status_check dead ws u s, True)"
| "dispatch env dead now ws (UnknownEvent n) s =
     (send_text dead ws (Reply 404 (''Unknown event: '' @ n)) s, True)"

text \<open>
  What happens to the system: a new socket is accepted and its loop starts; a served
  socket delivers an event; a served socket's peer goes away (\<open>receive_text\<close> raises).
  Each carries the sockets that are dead at that moment.
\<close>

datatype sys_event =
    Accept
  | Receive "websocket set" string websocket client_event
  | Disconnected "websocket set" websocket

definition end_of_loop :: "environment \<Rightarrow> websocket set \<Rightarrow> websocket \<Rightarrow> legacy \<Rightarrow> legacy \<times> outbox" where
  "end_of_loop env dead ws s =
     (case cleanup_connection env dead ws s of
        (s', out) \<Rightarrow> (s'\<lparr>serving := serving s' |-| {|ws|}\<rparr>, out))"

fun websocket_handler :: "environment \<Rightarrow> sys_event \<Rightarrow> legacy \<Rightarrow> legacy \<times> outbox" where
  "websocket_handler env Accept s =
     (s\<lparr>connected_clients := finsert (next_socket s) (connected_clients s),
        serving := finsert (next_socket s) (serving s),
        next_socket := Suc (next_socket s)\<rparr>, [])"
| "websocket_handler env (Receive dead now ws ev) s =
     (if ws |\<notin>| serving s then (s, [])
      else (case dispatch env dead now ws ev s of
              ((None, s', out), True) \<Rightarrow> (s', out)
            | ((e, s', out), b) \<Rightarrow>
                (case end_of_loop env dead ws s' of (s'', out') \<Rightarrow> (s'', out @ out'))))"
| "websocket_handler env (Disconnected dead ws) s =
     (if ws |\<notin>| serving s then (s, []) else end_of_loop env dead ws s)"

definition legacy_run :: "environment \<Rightarrow> sys_event list \<Rightarrow> legacy \<Rightarrow> legacy" where
  "legacy_run env evs s = fold (\<lambda>ev t. fst (websocket_handler env ev t)) evs s"

section \<open>Permission checks (src/services/websocket\_service.py)\<close>

text \<open>
  \<open>validate_user_permissions\<close> calls the global name \<open>verify_token\<close>. What that name
  stands for in the module decides the outcome, so it is a parameter: a call either
  raises or returns \<open>None\<close>, a string or a payload dictionary.
\<close>

datatype py_object = PyStr string | PyDict token_payload

type_synonym verifier = "string \<Rightarrow> error + py_object option"

text \<open>
  In src/services/websocket\_service.py the line importing \<open>verify_token\<close> is a comment
  (line 7) and the module defines no such name: evaluating it raises \<open>NameError\<close>.
\<close>

definition module_verify_token :: verifier where
  "module_verify_token token = Inl NameError"

text \<open>The function the commented import names (src/auth/dependencies.py, lines 59 to 64).\<close>

definition imported_verify_token :: "(string \<Rightarrow> token_payload option) \<Rightarrow> verifier" where
  "imported_verify_token decode token = Inr (map_option PyStr (verify_token decode token))"

text \<open>
  The variant left as a comment in src/auth/dependencies.py (lines 66 to 93), which hands
  back the whole payload and \<open>None\<close> for an empty token.
\<close>

definition payload_verify_token :: "(string \<Rightarrow> token_payload option) \<Rightarrow> verifier" where
  "payload_verify_token decode token =
     (if token = [] then Inr None else Inr (map_option PyDict (decode token)))"

text \<open>
  \<open>validate_user_permissions\<close>. The second component is the returned dictionary,
  \<open>None\<close> for \<^verbatim>\<open>{}\<close>. \<open>.get\<close> on a string raises \<open>AttributeError\<close>; every exception
  ends in the \<open>except\<close> clause, which returns \<^verbatim>\<open>False, {}\<close>. A payload dictionary
  is never empty: \<open>create_access_token\<close> always adds the expiry claim.
\<close>

definition validate_user_permissions ::
  "verifier \<Rightarrow> string \<Rightarrow> string list option \<Rightarrow> bool \<times> token_payload option" where
  "validate_user_permissions verify token required_permissions =
     (case verify token of
        Inl e \<Rightarrow> (False, None)
      | Inr None \<Rightarrow> (False, None)
      | Inr (Some (PyStr x)) \<Rightarrow> (False, None)
      | Inr (Some (PyDict token_payload)) \<Rightarrow>
          (let user_permissions = (case permissions token_payload of None \<Rightarrow> [] | Some ps \<Rightarrow> ps);
               user_role = (case role token_payload of None \<Rightarrow> ''user'' | Some r \<Rightarrow> r)
           in case required_permissions of
                None \<Rightarrow> (True, Some token_payload)
              | Some [] \<Rightarrow> (True, Some token_payload)
              | Some required \<Rightarrow>
                  (let has_permissions = list_all (\<lambda>perm. perm \<in> set user_permissions) required
                   in if \<not> has_permissions \<and> user_role \<noteq> ''admin''
                      then (False, Some token_payload)
                      else (True, Some token_payload))))"

section \<open>Decoding inbound frames\<close>

text \<open>
  \<open>parse_event\<close> (src/websocket/websocket.py) and \<open>parse_event_with_suffix\<close>
  (src/routes/websocket\_routes.py). \<open>json.loads\<close> is a parameter, \<open>None\<close> when it
  raises \<open>JSONDecodeError\<close>.
\<close>

datatype json = JNull | JBool bool | JNum int | JStr string | JArr "json list"
  | JObj "(string \<times> json) list"

definition SUFFIX :: string where
  "SUFFIX = ''aabb''"

definition endswith :: "string \<Rightarrow> string \<Rightarrow> bool" where
  "endswith raw suf = (length suf \<le> length raw \<and> drop (length raw - length suf) raw = suf)"

text \<open>\<open>raw[:-len(SUFFIX)]\<close>.\<close>

definition strip_suffix :: "string \<Rightarrow> string" where
  "strip_suffix raw = take (length raw - length SUFFIX) raw"

text \<open>
  The error documents: \<open>LegacyError n m r\<close> is
  \<^verbatim>\<open>{"status": n, "message": m, "data": {"received": r}}\<close> and \<open>RouteError m c r\<close> is
  \<^verbatim>\<open>{"message": m, "code": c, "data": {"received": r}}\<close>.
\<close>

datatype error_document = LegacyError nat string string | RouteError string string string

definition parse_event :: "(string \<Rightarrow> json option) \<Rightarrow> string \<Rightarrow> json option \<times> error_document option" where
  "parse_event json_loads raw =
     (if \<not> endswith raw SUFFIX then (None, Some (LegacyError 400 ''Invalid suffix'' raw))
      else (case json_loads (strip_suffix raw) of
              Some event \<Rightarrow> (Some event, None)
            | None \<Rightarrow> (None, Some (LegacyError 400 ''Malformed JSON'' raw))))"

definition parse_event_with_suffix ::
  "(string \<Rightarrow> json option) \<Rightarrow> string \<Rightarrow> json option \<times> error_document option" where
  "parse_event_with_suffix json_loads raw =
     (if \<not> endswith raw SUFFIX
      then (None, Some (RouteError ''Invalid message format: missing required suffix''
                          ''INVALID_FORMAT'' raw))
      else (case json_loads (strip_suffix raw) of
              None \<Rightarrow> (None, Some (RouteError ''Invalid JSON format in message'' ''INVALID_JSON'' raw))
            | Some (JObj event_dict) \<Rightarrow>
                if ''event_name'' \<notin> fst ` set event_dict
                then (None, Some (RouteError
                        ''Invalid event structure: Missing required field: event_name''
                        ''INVALID_STRUCTURE'' raw))
                else if ''event_data'' \<notin> fst ` set event_dict
                then (Some (JObj (event_dict @ [(''event_data'', JObj [])])), None)
                else (Some (JObj event_dict), None)
            | Some _ \<Rightarrow>
                (None, Some (RouteError ''Invalid event structure: Event must be a dictionary''
                               ''INVALID_STRUCTURE'' raw))))"

section \<open>Notions used in the statements\<close>

text \<open>
  A typing entry of a chat is stale at \<open>now\<close> when its timestamp is older than the
  expiry, fresh when it is not; an entry of \<open>typing_status\<close> without a timestamp is
  neither.
\<close>

definition stale :: "datetime \<Rightarrow> int \<Rightarrow> ConnectionManager \<Rightarrow> chat_id \<Rightarrow> user_id \<Rightarrow> bool" where
  "stale now e s c u =
     (member_of (typing_status s) c u
      \<and> (case timestamp_of s u c of None \<Rightarrow> False | Some t \<Rightarrow> \<not> within_expiry now e t))"

definition fresh :: "datetime \<Rightarrow> int \<Rightarrow> ConnectionManager \<Rightarrow> chat_id \<Rightarrow> user_id \<Rightarrow> bool" where
  "fresh now e s c u =
     (member_of (typing_status s) c u
      \<and> (case timestamp_of s u c of None \<Rightarrow> False | Some t \<Rightarrow> within_expiry now e t))"

text \<open>Alice started typing in chat c1 at second 1, Bob at second 9.\<close>

definition typing_example :: ConnectionManager where
  "typing_example =
     set_typing_status 9000000 ''bob'' ''c1'' True
       (set_typing_status 1000000 ''alice'' ''c1'' True init_manager)"

text \<open>The state of \<open>disconnect\<close> between its two loops.\<close>

definition after_leaving ::
  "(string fset \<Rightarrow> string list) \<Rightarrow> user_id \<Rightarrow> ConnectionManager \<Rightarrow> ConnectionManager" where
  "after_leaving it u s =
     fold (\<lambda>c. leave_chat u c) (it (get_set (user_chats s) u))
       (s\<lparr>active_connections := (active_connections s)(u := None)\<rparr>)"

text \<open>
  A user is live when the manager holds a socket for the user on which a send succeeds,
  broken when it holds one on which the send raises. The targets of a broadcast are the
  joined members of the chat without the excluded user.
\<close>

definition live :: "ConnectionManager \<Rightarrow> websocket set \<Rightarrow> user_id \<Rightarrow> bool" where
  "live s dead u = (case active_connections s u of None \<Rightarrow> False | Some ws \<Rightarrow> ws \<notin> dead)"

definition broken :: "ConnectionManager \<Rightarrow> websocket set \<Rightarrow> user_id \<Rightarrow> bool" where
  "broken s dead u = (case active_connections s u of None \<Rightarrow> False | Some ws \<Rightarrow> ws \<in> dead)"

definition broadcast_targets :: "ConnectionManager \<Rightarrow> chat_id \<Rightarrow> user_id option \<Rightarrow> user_id fset" where
  "broadcast_targets s c exclude_user =
     (if truthy exclude_user then get_set (chat_participants s) c |-| {|the exclude_user|}
      else get_set (chat_participants s) c)"

text \<open>Alice (socket 1) and Bob (socket 2) are connected and have joined chat c1.\<close>

definition chat_example :: ConnectionManager where
  "chat_example =
     run_ops sorted_list_of_fset
       [Connect True 1 ''alice'', Connect True 2 ''bob'',
        JoinChat ''alice'' ''c1'', JoinChat ''bob'' ''c1'' :: string manager_op]
       init_manager"

text \<open>
  Every entry of \<open>typing_status\<close> has its timestamp and every timestamp its entry.
\<close>

definition typing_consistent :: "ConnectionManager \<Rightarrow> bool" where
  "typing_consistent s =
     (\<forall>u c. member_of (typing_status s) c u = (timestamp_of s u c \<noteq> None))"

text \<open>
  Concrete scenarios. Alice connects on socket 1, joins chat c1, and connects again on
  socket 2, which replaces the first registration.
\<close>

definition replaced_example :: ConnectionManager where
  "replaced_example =
     run_ops sorted_list_of_fset
       [Connect True 1 ''alice'', JoinChat ''alice'' ''c1'', Connect True 2 ''alice''
          :: string manager_op]
       init_manager"

text \<open>
  An environment for the legacy transport: two tokens are valid, timestamps compare as
  strings, sets are visited in sorted order.
\<close>

definition example_env :: environment where
  "example_env =
     \<lparr>jwt_decode = (\<lambda>token.
          if token = ''token-alice''
          then Some \<lparr>sub = Some ''alice'', role = None, permissions = None\<rparr>
          else if token = ''token-bob''
          then Some \<lparr>sub = Some ''bob'', role = None, permissions = None\<rparr>
          else None),
       not_before = (\<lambda>a b. b \<le> a),
       visit_ids = sorted_list_of_fset,
       visit_sockets = sorted_list_of_fset\<rparr>"

text \<open>Alice logs in on socket 0 and then again on socket 1.\<close>

definition duplicate_login :: legacy where
  "duplicate_login =
     legacy_run example_env
       [Accept, Receive {} ''t0'' 0 (Login ''token-alice''),
        Accept, Receive {} ''t1'' 1 (Login ''token-alice'')]
       init_legacy"

text \<open>Alice logs in on socket 0 and starts typing in chat c1, then in chat c2.\<close>

definition typing_twice :: legacy where
  "typing_twice =
     legacy_run example_env
       [Accept, Receive {} ''t0'' 0 (Login ''token-alice''),
        Receive {} ''t1'' 0 (TypingStart (Some ''c1'')),
        Receive {} ''t2'' 0 (TypingStart (Some ''c2''))]
       init_legacy"

text \<open>The state in which an outcome leaves the system.\<close>

definition state_of :: "'s outcome \<Rightarrow> 's" where
  "state_of r = fst (snd r)"

text \<open>
  How the record of one message may differ after a delivery or read operation: sender and
  receiver are kept, the status is kept or becomes delivered, the three sets only grow,
  and a connection new in \<open>read_by\<close> is one of the manual readers \<open>M\<close> or is in
  \<open>recipients\<close>.
\<close>

definition progress :: "websocket set \<Rightarrow> message_info \<Rightarrow> message_info \<Rightarrow> bool" where
  "progress M i i' =
     (sender_ws i' = sender_ws i \<and> receiver_id i' = receiver_id i
      \<and> (status i' = status i \<or> status i' = ''delivered'')
      \<and> recipients i |\<subseteq>| recipients i'
      \<and> delivered_to i |\<subseteq>| delivered_to i'
      \<and> read_by i |\<subseteq>| read_by i'
      \<and> (\<forall>w. w |\<in>| read_by i' \<and> w |\<notin>| read_by i \<longrightarrow> w \<in> M \<or> w |\<in>| recipients i'))"

text \<open>
  What holds of every record at rest: the status is sent or delivered; a record with a
  non-empty \<open>delivered_to\<close> is delivered; for a direct message every recipient is in
  \<open>delivered_to\<close>.
\<close>

definition tracked_ok :: "message_info \<Rightarrow> bool" where
  "tracked_ok i =
     ((status i = ''sent'' \<or> status i = ''delivered'')
      \<and> (delivered_to i \<noteq> {||} \<longrightarrow> status i = ''delivered'')
      \<and> (truthy (receiver_id i) \<longrightarrow> recipients i |\<subseteq>| delivered_to i))"

definition tracking_ok :: "legacy \<Rightarrow> bool" where
  "tracking_ok s = (\<forall>mid i. fmlookup (message_tracking s) mid = Some i \<longrightarrow> tracked_ok i)"

text \<open>
  \<open>moves M s s'\<close>: the same messages are tracked, each record has made progress, the
  authentication table and the control state are the same.
\<close>

definition moves :: "websocket set \<Rightarrow> legacy \<Rightarrow> legacy \<Rightarrow> bool" where
  "moves M s s' =
     ((\<forall>mid. case fmlookup (message_tracking s) mid of
               None \<Rightarrow> fmlookup (message_tracking s') mid = None
             | Some i \<Rightarrow> (\<exists>i'. fmlookup (message_tracking s') mid = Some i' \<and> progress M i i'))
      \<and> authenticated_users s' = authenticated_users s
      \<and> serving s' = serving s
      \<and> next_socket s' = next_socket s
      \<and> (tracking_ok s \<longrightarrow> tracking_ok s'))"

lemma progress_refl [simp]: "progress M i i"
  by (simp add: progress_def)

text \<open>
  The record under a message id is that of a broadcast (no receiver), if there is one.
\<close>

definition broadcast_record :: "legacy \<Rightarrow> string \<Rightarrow> bool" where
  "broadcast_record s mid =
     (\<forall>i. fmlookup (message_tracking s) mid = Some i \<longrightarrow> \<not> truthy (receiver_id i))"

text \<open>The record that \<open>handle_send_chat\<close> stores for a new message.\<close>

definition new_record :: "websocket \<Rightarrow> user_id \<Rightarrow> send_chat_data \<Rightarrow> string \<Rightarrow> message_info" where
  "new_record ws sender event_data now =
     \<lparr>sender_ws = ws, sender_id = sender, receiver_id = sc_receiver_id event_data,
      status = ''sent'',
      timestamp = (case sc_timestamp event_data of None \<Rightarrow> now | Some t \<Rightarrow> t),
      recipients = {||}, delivered_to = {||}, read_by = {||}\<rparr>"

text \<open>What \<open>cleanup_connection\<close> does to one record.\<close>

definition strip :: "websocket \<Rightarrow> message_info \<Rightarrow> message_info" where
  "strip ws i = i\<lparr>recipients := recipients i |-| {|ws|},
                  delivered_to := delivered_to i |-| {|ws|},
                  read_by := read_by i |-| {|ws|}\<rparr>"

text \<open>
  Every tracked message has a non-empty id and a sender socket that has been created;
  while that socket is served it is authenticated. Served sockets have been created.
\<close>

definition senders_ok :: "legacy \<Rightarrow> bool" where
  "senders_ok s =
     ((\<forall>mid i. fmlookup (message_tracking s) mid = Some i \<longrightarrow>
          mid \<noteq> [] \<and> sender_ws i < next_socket s
          \<and> (sender_ws i |\<in>| serving s \<longrightarrow> authenticated_users s (sender_ws i) \<noteq> None))
      \<and> (\<forall>w. w |\<in>| serving s \<longrightarrow> w < next_socket s))"

text \<open>
  The event stores a new record under the message id; the event is a manual read by the
  socket.
\<close>

definition replaces :: "sys_event \<Rightarrow> string \<Rightarrow> bool" where
  "replaces ev mid =
     (case ev of Receive dead now w (SendChat d) \<Rightarrow> sc_id d = Some mid | _ \<Rightarrow> False)"

definition manual_readers :: "sys_event \<Rightarrow> websocket set" where
  "manual_readers ev =
     (case ev of Receive dead now w (MessageRead m) \<Rightarrow> {w} | _ \<Rightarrow> {})"

definition status_rank :: "string \<Rightarrow> nat" where
  "status_rank st = (if st = ''read'' then 2 else if st = ''delivered'' then 1 else 0)"

text \<open>
  Alice logs in on socket 0 and sends message m1 to Bob, who is not connected.
\<close>

definition sent_example :: legacy where
  "sent_example =
     legacy_run example_env
       [Accept, Receive {} ''t0'' 0 (Login ''token-alice''),
        Receive {} ''t1'' 0
          (SendChat \<lparr>sc_id = Some ''m1'', sc_receiver_id = Some ''bob'', sc_timestamp = None\<rparr>)]
       init_legacy"

text \<open>
  After that Bob connects on socket 1, logs in, and sends \<open>message_read\<close> for m1.
\<close>

definition unread_example :: legacy where
  "unread_example =
     legacy_run example_env
       [Accept, Receive {} ''t2'' 1 (Login ''token-bob''),
        Receive {} ''t3'' 1 (MessageRead (Some ''m1''))]
       sent_example"

text \<open>
  Alice on socket 0 and Bob on socket 1 are both logged in, and Alice sends m1 to Bob.
\<close>

definition delivered_example :: "sys_event list" where
  "delivered_example =
     [Accept, Receive {} ''t0'' 0 (Login ''token-alice''),
      Accept, Receive {} ''t1'' 1 (Login ''token-bob''),
      Receive {} ''t2'' 0
        (SendChat \<lparr>sc_id = Some ''m1'', sc_receiver_id = Some ''bob'', sc_timestamp = None\<rparr>)]"

text \<open>The status stored under a message id, if the message is tracked.\<close>

definition status_at :: "legacy \<Rightarrow> string \<Rightarrow> string option" where
  "status_at s mid = map_option status (fmlookup (message_tracking s) mid)"

text \<open>
  After \<open>delivered_example\<close>, Alice sends a second \<open>send_chat\<close> with the id m1, this
  time to Carol, who is not connected.
\<close>

definition resend_example :: sys_event where
  "resend_example =
     Receive {} ''t3'' 0
       (SendChat \<lparr>sc_id = Some ''m1'', sc_receiver_id = Some ''carol'', sc_timestamp = None\<rparr>)"

section \<open>Properties of the connection manager\<close>

lemma member_of_dict_add:
  "member_of (dict_add d k v) k' v' = (member_of d k' v' \<or> (k' = k \<and> v' = v))"
  by (auto simp: member_of_def dict_add_def Let_def split: option.splits if_splits)

lemma member_of_dict_discard:
  "member_of (dict_discard d k v) k' v' = (member_of d k' v' \<and> \<not> (k' = k \<and> v' = v))"
  by (auto simp: member_of_def dict_discard_def Let_def split: option.splits if_splits)

lemma index_consistent_join_chat:
  "index_consistent s \<Longrightarrow> index_consistent (join_chat u c s)"
  by (auto simp: index_consistent_def join_chat_def Let_def member_of_dict_add)

lemma index_consistent_leave_chat:
  "index_consistent s \<Longrightarrow> index_consistent (leave_chat u c s)"
  by (auto simp: index_consistent_def leave_chat_def Let_def member_of_dict_discard)

lemma index_consistent_other_fields [simp]:
  "index_consistent (s\<lparr>typing_status := a\<rparr>) = index_consistent s"
  "index_consistent (s\<lparr>typing_timestamps := b\<rparr>) = index_consistent s"
  "index_consistent (s\<lparr>active_connections := d\<rparr>) = index_consistent s"
  by (simp_all add: index_consistent_def)

lemma index_consistent_set_typing_status:
  "index_consistent s \<Longrightarrow> index_consistent (set_typing_status now u c b s)"
  by (simp add: set_typing_status_def Let_def)

lemma index_consistent_fold_leave_chats:
  "index_consistent s \<Longrightarrow> index_consistent (fold (\<lambda>c. leave_chat u c) cs s)"
  by (induction cs arbitrary: s) (simp_all add: index_consistent_leave_chat)

lemma index_consistent_fold_leave_users:
  "index_consistent s \<Longrightarrow> index_consistent (fold (\<lambda>u. leave_chat u c) us s)"
  by (induction us arbitrary: s) (simp_all add: index_consistent_leave_chat)

lemma index_consistent_fold_typing_discard:
  "index_consistent (fold (\<lambda>c t. t\<lparr>typing_status := dict_discard (typing_status t) c u\<rparr>) cs s)
     = index_consistent s"
  by (induction cs arbitrary: s) simp_all

lemma index_consistent_disconnect:
  "index_consistent s \<Longrightarrow> index_consistent (disconnect it u s)"
  unfolding disconnect_def Let_def
  by (simp add: index_consistent_fold_leave_chats index_consistent_fold_typing_discard
        split: option.splits)

lemma index_consistent_fold_set_typing_status:
  "index_consistent s \<Longrightarrow> index_consistent (fold (\<lambda>u. set_typing_status now u c b) us s)"
  by (induction us arbitrary: s) (simp_all add: index_consistent_set_typing_status)

lemma index_consistent_get_typing_users:
  "index_consistent s \<Longrightarrow> index_consistent (snd (get_typing_users it now c e s))"
  unfolding get_typing_users_def Let_def
  by (simp add: index_consistent_fold_set_typing_status split: option.splits)

lemma index_consistent_send_personal_message:
  "index_consistent s \<Longrightarrow> index_consistent (fst (snd (send_personal_message it dead u d s)))"
  by (auto simp: send_personal_message_def index_consistent_disconnect split: option.splits)

lemma index_consistent_broadcast_loop:
  "index_consistent (fst acc) \<Longrightarrow> index_consistent (fst (broadcast_loop it dead d us acc))"
proof (induction us arbitrary: acc)
  case Nil
  then show ?case by simp
next
  case (Cons u us)
  obtain s out disc where acc: "acc = (s, out, disc)" by (cases acc)
  obtain ok s' fr where sp: "send_personal_message it dead u d s = (ok, s', fr)"
    by (cases "send_personal_message it dead u d s")
  from Cons.prems acc have "index_consistent s" by simp
  then have "index_consistent s'"
    using index_consistent_send_personal_message [of s it dead u d] sp by simp
  then show ?case using acc sp by (simp add: Cons.IH)
qed

lemma index_consistent_broadcast_to_chat:
  "index_consistent s \<Longrightarrow> index_consistent (fst (snd (broadcast_to_chat it dead c d ex s)))"
proof -
  assume inv: "index_consistent s"
  let ?P = "if truthy ex then get_set (chat_participants s) c |-| {|the ex|}
            else get_set (chat_participants s) c"
  obtain s1 out disc where bl: "broadcast_loop it dead d (it ?P) (s, [], []) = (s1, out, disc)"
    by (cases "broadcast_loop it dead d (it ?P) (s, [], [])")
  have "index_consistent s1"
    using index_consistent_broadcast_loop [of "(s, [], [])" it dead d "it ?P"] inv bl by simp
  then have "index_consistent (fold (\<lambda>u. leave_chat u c) disc s1)"
    by (rule index_consistent_fold_leave_users)
  then show ?thesis using inv bl by (simp add: broadcast_to_chat_def Let_def)
qed

lemma index_consistent_apply_op:
  "index_consistent s \<Longrightarrow> index_consistent (apply_op it op s)"
  by (cases op)
     (simp_all add: connect_def index_consistent_disconnect index_consistent_join_chat
        index_consistent_leave_chat index_consistent_set_typing_status
        index_consistent_get_typing_users index_consistent_send_personal_message
        index_consistent_broadcast_to_chat)

lemma index_consistent_init: "index_consistent init_manager"
  by (simp add: index_consistent_def init_manager_def member_of_def)

lemma index_consistent_run_ops:
  "index_consistent s \<Longrightarrow> index_consistent (run_ops it ops s)"
  unfolding run_ops_def
  by (induction ops arbitrary: s) (simp_all add: index_consistent_apply_op)

text \<open>
  C1. After any sequence of manager operations on a fresh manager (joins, leaves and
  disconnects, and also connects, typing updates, typing queries, personal sends and
  broadcasts, in any order and with any set iteration order), a user is in the
  participant set of a chat exactly when the chat is in the user's chat set.
\<close>

theorem C1_indices_consistent:
  "member_of (chat_participants (run_ops it ops init_manager)) c u
     = member_of (user_chats (run_ops it ops init_manager)) u c"
  using index_consistent_run_ops [OF index_consistent_init, of it ops]
  by (simp add: index_consistent_def)

section \<open>Properties of the frame decoders\<close>

text \<open>
  C8. A raw frame that does not end with the suffix is answered with the missing-suffix
  error document, which carries the received text, by both decoders; the answer is the
  same whatever the JSON parser would do, so the parser has no part in it.
\<close>

theorem C8_missing_suffix_rejected:
  "\<not> endswith raw SUFFIX \<Longrightarrow>
     parse_event json_loads raw = (None, Some (LegacyError 400 ''Invalid suffix'' raw))
   \<and> parse_event_with_suffix json_loads raw
       = (None, Some (RouteError ''Invalid message format: missing required suffix''
                        ''INVALID_FORMAT'' raw))
   \<and> parse_event json_loads raw = parse_event other_loads raw
   \<and> parse_event_with_suffix json_loads raw = parse_event_with_suffix other_loads raw"
  by (simp add: parse_event_def parse_event_with_suffix_def)

theorem C8_missing_suffix_rejected_witness:
  "\<not> endswith ''hello'' SUFFIX
   \<and> parse_event (\<lambda>r. Some JNull) ''hello'' = (None, Some (LegacyError 400 ''Invalid suffix'' ''hello''))
   \<and> parse_event_with_suffix (\<lambda>r. Some JNull) ''hello''
       = (None, Some (RouteError ''Invalid message format: missing required suffix''
                        ''INVALID_FORMAT'' ''hello''))"
proof -
  have h: "\<not> endswith ''hello'' SUFFIX" by (simp add: endswith_def SUFFIX_def)
  show ?thesis using h C8_missing_suffix_rejected [OF h, of "\<lambda>r. Some JNull"] by simp
qed

section \<open>Properties of the permission check\<close>

text \<open>
  With a \<open>verify_token\<close> that hands back the payload, the check does what its comments
  say: an admin passes, anyone else passes exactly when every required permission is
  listed in the payload.
\<close>

lemma validate_user_permissions_with_payload:
  assumes "token \<noteq> []" and "decode token = Some p"
  shows "fst (validate_user_permissions (payload_verify_token decode) token required)
           = (role p = Some ''admin''
              \<or> (\<forall>perm \<in> set (case required of None \<Rightarrow> [] | Some r \<Rightarrow> r).
                    perm \<in> set (case permissions p of None \<Rightarrow> [] | Some ps \<Rightarrow> ps)))"
  using assms
  by (auto simp: validate_user_permissions_def payload_verify_token_def Let_def list_all_iff
        split: option.splits list.splits)

text \<open>
  C3. In the module as it stands the name \<open>verify_token\<close> is unbound, and the function
  its commented import names returns the subject string, not the payload. Either way
  \<open>validate_user_permissions\<close> answers \<open>False\<close> for every token and every list of
  required permissions, a token with role admin included.
\<close>

theorem C3_admin_token_refused:
  "fst (validate_user_permissions module_verify_token token required) = False
   \<and> fst (validate_user_permissions (imported_verify_token decode) token required) = False"
  by (simp add: validate_user_permissions_def module_verify_token_def imported_verify_token_def
        split: option.splits)

section \<open>Properties of the typing state\<close>

lemma timestamp_of_timestamps_pop:
  "timestamp_of (s\<lparr>typing_timestamps := timestamps_pop (typing_timestamps s) u c\<rparr>) u' c'
     = (if u' = u \<and> c' = c then None else timestamp_of s u' c')"
proof (cases "typing_timestamps s u")
  case None
  then show ?thesis by (auto simp: timestamp_of_def timestamps_pop_def)
next
  case (Some m)
  show ?thesis
  proof (cases "fmdrop c m = fmempty")
    case True
    have "fmlookup m c' = None" if "c' \<noteq> c"
    proof -
      have "fmlookup (fmdrop c m) c' = None" using True by simp
      with that show ?thesis by simp
    qed
    with Some True show ?thesis by (auto simp: timestamp_of_def timestamps_pop_def)
  next
    case False
    with Some show ?thesis by (auto simp: timestamp_of_def timestamps_pop_def)
  qed
qed

lemma timestamp_of_typing_status_update [simp]:
  "timestamp_of (s\<lparr>typing_status := a\<rparr>) u c = timestamp_of s u c"
  by (simp add: timestamp_of_def)

lemma typing_status_stop:
  "member_of (typing_status (set_typing_status now u c False s)) c' u'
     = (member_of (typing_status s) c' u' \<and> \<not> (c' = c \<and> u' = u))"
  by (simp add: set_typing_status_def Let_def member_of_dict_discard)

lemma timestamp_of_stop:
  "timestamp_of (set_typing_status now u c False s) u' c'
     = (if u' = u \<and> c' = c then None else timestamp_of s u' c')"
proof -
  let ?s1 = "s\<lparr>typing_status := dict_discard (typing_status s) c u\<rparr>"
  have "set_typing_status now u c False s
          = ?s1\<lparr>typing_timestamps := timestamps_pop (typing_timestamps ?s1) u c\<rparr>"
    by (simp add: set_typing_status_def Let_def)
  then show ?thesis using timestamp_of_timestamps_pop [of ?s1 u c u' c'] by simp
qed

lemma typing_status_fold_stop:
  "member_of (typing_status (fold (\<lambda>u. set_typing_status now u c False) us s)) c' u'
     = (member_of (typing_status s) c' u' \<and> \<not> (c' = c \<and> u' \<in> set us))"
  by (induction us arbitrary: s) (auto simp: typing_status_stop)

lemma timestamp_of_fold_stop:
  "timestamp_of (fold (\<lambda>u. set_typing_status now u c False) us s) u' c'
     = (if u' \<in> set us \<and> c' = c then None else timestamp_of s u' c')"
  by (induction us arbitrary: s) (auto simp: timestamp_of_stop)

lemma enumerates_set: "enumerates it \<Longrightarrow> x \<in> set (it S) \<longleftrightarrow> x |\<in>| S"
  by (metis enumerates_def fset_of_list_elem)

lemma get_typing_users_result:
  assumes "enumerates it"
  shows "set (fst (get_typing_users it now c e s)) = {u. fresh now e s c u}"
  using assms
  by (auto simp: get_typing_users_def Let_def fresh_def member_of_def enumerates_set
        split: option.splits)

lemma get_typing_users_state:
  "snd (get_typing_users it now c e s)
     = (case typing_status s c of
          None \<Rightarrow> s
        | Some T \<Rightarrow> fold (\<lambda>u. set_typing_status now u c False)
                     (filter (\<lambda>u. case timestamp_of s u c of None \<Rightarrow> False
                                   | Some t \<Rightarrow> \<not> within_expiry now e t) (it T)) s)"
  by (simp add: get_typing_users_def Let_def split: option.splits)

lemma stale_in_visited:
  assumes "enumerates it" and "typing_status s c = Some T"
  shows "u \<in> set (filter (\<lambda>u. case timestamp_of s u c of None \<Rightarrow> False
                               | Some t \<Rightarrow> \<not> within_expiry now e t) (it T))
           = stale now e s c u"
  using assms by (auto simp: stale_def member_of_def enumerates_set split: option.splits)

lemma stale_without_typing: "typing_status s c = None \<Longrightarrow> \<not> stale now e s c u"
  by (simp add: stale_def member_of_def)

lemma get_typing_users_typing_status:
  assumes "enumerates it"
  shows "member_of (typing_status (snd (get_typing_users it now c e s))) c' u'
           = (member_of (typing_status s) c' u' \<and> \<not> (c' = c \<and> stale now e s c u'))"
proof (cases "typing_status s c")
  case None
  then show ?thesis by (simp add: get_typing_users_state stale_without_typing)
next
  case (Some T)
  then show ?thesis
    by (simp add: get_typing_users_state typing_status_fold_stop
          stale_in_visited [OF assms Some] del: set_filter)
qed

lemma get_typing_users_timestamps:
  assumes "enumerates it"
  shows "timestamp_of (snd (get_typing_users it now c e s)) u' c'
           = (if c' = c \<and> stale now e s c u' then None else timestamp_of s u' c')"
proof (cases "typing_status s c")
  case None
  then show ?thesis by (simp add: get_typing_users_state stale_without_typing)
next
  case (Some T)
  then show ?thesis
    by (simp add: get_typing_users_state timestamp_of_fold_stop
          stale_in_visited [OF assms Some] del: set_filter)
qed

lemma no_stale_unchanged:
  assumes "enumerates it" and "\<And>u. \<not> stale now e s c u"
  shows "snd (get_typing_users it now c e s) = s"
proof (cases "typing_status s c")
  case None
  then show ?thesis by (simp add: get_typing_users_def)
next
  case (Some T)
  have "filter (\<lambda>u. case timestamp_of s u c of None \<Rightarrow> False
                     | Some t \<Rightarrow> \<not> within_expiry now e t) (it T) = []"
    using assms Some
    by (auto simp: filter_empty_conv stale_def member_of_def enumerates_set split: option.splits)
  with Some show ?thesis by (simp add: get_typing_users_def Let_def)
qed

text \<open>
  C7. Whatever the order in which the typing set is visited: every user returned by
  \<open>get_typing_users\<close> has a timestamp for the chat that is at most \<open>expiry\<close> seconds
  old; every member of the chat's typing set whose timestamp is older is removed from the
  typing set and loses the timestamp; and a second call at the same time returns the same
  set of users and leaves the state as the first call left it.
\<close>

theorem C7_typing_users_expiry:
  assumes "enumerates it" and "enumerates it'"
    and "get_typing_users it now c e s = (users, s')"
  shows "(\<forall>u \<in> set users. \<exists>t. timestamp_of s u c = Some t \<and> now - t \<le> e * 1000000)
       \<and> (\<forall>u t. member_of (typing_status s) c u \<and> timestamp_of s u c = Some t
                  \<and> \<not> now - t \<le> e * 1000000
             \<longrightarrow> \<not> member_of (typing_status s') c u \<and> timestamp_of s' u c = None)
       \<and> set (fst (get_typing_users it' now c e s')) = set users
       \<and> snd (get_typing_users it' now c e s') = s'"
proof -
  have users: "set users = {u. fresh now e s c u}"
    using get_typing_users_result [OF assms(1), of now c e s] assms(3) by simp
  have ts: "member_of (typing_status s') c' u'
              = (member_of (typing_status s) c' u' \<and> \<not> (c' = c \<and> stale now e s c u'))" for c' u'
    using get_typing_users_typing_status [OF assms(1), of now c e s] assms(3) by simp
  have tt: "timestamp_of s' u' c'
              = (if c' = c \<and> stale now e s c u' then None else timestamp_of s u' c')" for c' u'
    using get_typing_users_timestamps [OF assms(1), of now c e s] assms(3) by simp
  have a: "\<forall>u \<in> set users. \<exists>t. timestamp_of s u c = Some t \<and> now - t \<le> e * 1000000"
    using users by (auto simp: fresh_def within_expiry_def split: option.splits)
  have b: "\<forall>u t. member_of (typing_status s) c u \<and> timestamp_of s u c = Some t
                  \<and> \<not> now - t \<le> e * 1000000
             \<longrightarrow> \<not> member_of (typing_status s') c u \<and> timestamp_of s' u c = None"
    by (auto simp: ts tt stale_def within_expiry_def)
  have nostale: "\<not> stale now e s' c u" for u
    by (auto simp: stale_def ts tt split: option.splits)
  have "fresh now e s' c u = fresh now e s c u" for u
    by (auto simp: fresh_def stale_def ts tt split: option.splits)
  then have c: "set (fst (get_typing_users it' now c e s')) = set users"
    using get_typing_users_result [OF assms(2), of now c e s'] users by simp
  have d: "snd (get_typing_users it' now c e s') = s'"
    using no_stale_unchanged [OF assms(2)] nostale by blast
  from a b c d show ?thesis by blast
qed

lemma enumerates_sorted: "enumerates (sorted_list_of_fset :: string fset \<Rightarrow> string list)"
proof -
  have "distinct (sorted_list_of_fset S)" for S :: "string fset"
    by (simp add: sorted_list_of_fset.rep_eq)
  then show ?thesis by (simp add: enumerates_def)
qed

lemma typing_example_alice:
  "member_of (typing_status typing_example) ''c1'' ''alice''"
  "timestamp_of typing_example ''alice'' ''c1'' = Some 1000000"
  by (simp_all add: typing_example_def set_typing_status_def init_manager_def dict_add_def
        member_of_def timestamp_of_def Let_def)

theorem C7_typing_users_expiry_witness:
  "enumerates (sorted_list_of_fset :: string fset \<Rightarrow> string list)
   \<and> fst (get_typing_users sorted_list_of_fset 10000000 ''c1'' 5 typing_example) = [''bob'']
   \<and> \<not> member_of (typing_status
          (snd (get_typing_users sorted_list_of_fset 10000000 ''c1'' 5 typing_example))) ''c1'' ''alice''
   \<and> set (fst (get_typing_users sorted_list_of_fset 10000000 ''c1'' 5
          (snd (get_typing_users sorted_list_of_fset 10000000 ''c1'' 5 typing_example))))
       = {''bob''}
   \<and> snd (get_typing_users sorted_list_of_fset 10000000 ''c1'' 5
          (snd (get_typing_users sorted_list_of_fset 10000000 ''c1'' 5 typing_example)))
       = snd (get_typing_users sorted_list_of_fset 10000000 ''c1'' 5 typing_example)"
proof -
  let ?g = "get_typing_users sorted_list_of_fset 10000000 ''c1'' 5 typing_example"
  have users: "fst ?g = [''bob'']" by code_simp
  have g: "?g = (fst ?g, snd ?g)" by simp
  show ?thesis
    using C7_typing_users_expiry [OF enumerates_sorted enumerates_sorted g]
      typing_example_alice enumerates_sorted users
    by auto
qed

section \<open>What leaving and disconnecting change\<close>

lemma leave_chat_participants:
  "member_of (chat_participants (leave_chat u c s)) c' u'
     = (member_of (chat_participants s) c' u' \<and> \<not> (c' = c \<and> u' = u))"
  by (simp add: leave_chat_def Let_def member_of_dict_discard)

lemma leave_chat_user_chats:
  "member_of (user_chats (leave_chat u c s)) u' c'
     = (member_of (user_chats s) u' c' \<and> \<not> (c' = c \<and> u' = u))"
  by (auto simp add: leave_chat_def Let_def member_of_dict_discard)

lemma leave_chat_typing_status:
  "member_of (typing_status (leave_chat u c s)) c' u'
     = (member_of (typing_status s) c' u' \<and> \<not> (c' = c \<and> u' = u))"
  by (simp add: leave_chat_def Let_def member_of_dict_discard)

lemma timestamp_of_other_fields [simp]:
  "timestamp_of (s\<lparr>chat_participants := a\<rparr>) u c = timestamp_of s u c"
  "timestamp_of (s\<lparr>user_chats := b\<rparr>) u c = timestamp_of s u c"
  "timestamp_of (s\<lparr>active_connections := d\<rparr>) u c = timestamp_of s u c"
  by (simp_all add: timestamp_of_def)

lemma leave_chat_timestamps:
  "timestamp_of (leave_chat u c s) u' c'
     = (if u' = u \<and> c' = c then None else timestamp_of s u' c')"
proof -
  let ?s3 = "s\<lparr>chat_participants := dict_discard (chat_participants s) c u,
               user_chats := dict_discard (user_chats s) u c,
               typing_status := dict_discard (typing_status s) c u\<rparr>"
  have "leave_chat u c s = ?s3\<lparr>typing_timestamps := timestamps_pop (typing_timestamps ?s3) u c\<rparr>"
    by (simp add: leave_chat_def Let_def)
  then show ?thesis using timestamp_of_timestamps_pop [of ?s3 u c u' c'] by simp
qed

lemma leave_chat_active_connections [simp]:
  "active_connections (leave_chat u c s) = active_connections s"
  by (simp add: leave_chat_def Let_def)

lemma fold_leave_chats_active_connections [simp]:
  "active_connections (fold (\<lambda>c. leave_chat u c) cs s) = active_connections s"
  by (induction cs arbitrary: s) simp_all

lemma fold_leave_users_active_connections [simp]:
  "active_connections (fold (\<lambda>u. leave_chat u c) us s) = active_connections s"
  by (induction us arbitrary: s) simp_all

lemma fold_leave_chats_participants:
  "member_of (chat_participants (fold (\<lambda>c. leave_chat u c) cs s)) c' u'
     = (member_of (chat_participants s) c' u' \<and> \<not> (c' \<in> set cs \<and> u' = u))"
  by (induction cs arbitrary: s) (auto simp: leave_chat_participants)

lemma fold_leave_users_participants:
  "member_of (chat_participants (fold (\<lambda>u. leave_chat u c) us s)) c' u'
     = (member_of (chat_participants s) c' u' \<and> \<not> (c' = c \<and> u' \<in> set us))"
  by (induction us arbitrary: s) (auto simp: leave_chat_participants)

lemma fold_leave_chats_user_chats:
  "member_of (user_chats (fold (\<lambda>c. leave_chat u c) cs s)) u' c'
     = (member_of (user_chats s) u' c' \<and> \<not> (c' \<in> set cs \<and> u' = u))"
  by (induction cs arbitrary: s) (auto simp: leave_chat_user_chats)

lemma fold_leave_chats_typing_status:
  "member_of (typing_status (fold (\<lambda>c. leave_chat u c) cs s)) c' u'
     = (member_of (typing_status s) c' u' \<and> \<not> (c' \<in> set cs \<and> u' = u))"
  by (induction cs arbitrary: s) (auto simp: leave_chat_typing_status)

lemma fold_leave_chats_timestamps:
  "timestamp_of (fold (\<lambda>c. leave_chat u c) cs s) u' c'
     = (if u' = u \<and> c' \<in> set cs then None else timestamp_of s u' c')"
  by (induction cs arbitrary: s) (auto simp: leave_chat_timestamps)

lemma get_set_member: "c |\<in>| get_set d u \<longleftrightarrow> member_of d u c"
  by (simp add: get_set_def member_of_def split: option.splits)

text \<open>The typing loop of disconnect.\<close>

lemma fold_typing_discard_fields [simp]:
  "chat_participants (fold (\<lambda>c t. t\<lparr>typing_status := dict_discard (typing_status t) c u\<rparr>) cs s)
     = chat_participants s"
  "user_chats (fold (\<lambda>c t. t\<lparr>typing_status := dict_discard (typing_status t) c u\<rparr>) cs s)
     = user_chats s"
  "active_connections (fold (\<lambda>c t. t\<lparr>typing_status := dict_discard (typing_status t) c u\<rparr>) cs s)
     = active_connections s"
  "typing_timestamps (fold (\<lambda>c t. t\<lparr>typing_status := dict_discard (typing_status t) c u\<rparr>) cs s)
     = typing_timestamps s"
  by (induction cs arbitrary: s) simp_all

lemma fold_typing_discard_typing_status:
  "member_of (typing_status
       (fold (\<lambda>c t. t\<lparr>typing_status := dict_discard (typing_status t) c u\<rparr>) cs s)) c' u'
     = (member_of (typing_status s) c' u' \<and> \<not> (c' \<in> set cs \<and> u' = u))"
  by (induction cs arbitrary: s) (auto simp: member_of_dict_discard)

lemma disconnect_unfold:
  "disconnect it u s =
     (case typing_timestamps (after_leaving it u s) u of
        None \<Rightarrow> after_leaving it u s
      | Some m \<Rightarrow>
          (fold (\<lambda>c t. t\<lparr>typing_status := dict_discard (typing_status t) c u\<rparr>)
             (it (fmdom m)) (after_leaving it u s))
          \<lparr>typing_timestamps := (typing_timestamps (after_leaving it u s))(u := None)\<rparr>)"
  by (simp add: disconnect_def after_leaving_def Let_def split: option.splits)

lemma disconnect_active_connections:
  "active_connections (disconnect it u s) = (active_connections s)(u := None)"
  by (simp add: disconnect_unfold after_leaving_def split: option.splits)

lemma disconnect_participants:
  assumes "enumerates it"
  shows "member_of (chat_participants (disconnect it u s)) c' u'
           = (member_of (chat_participants s) c' u' \<and> \<not> (u' = u \<and> member_of (user_chats s) u c'))"
  using assms
  by (auto simp: disconnect_unfold after_leaving_def fold_leave_chats_participants
        enumerates_set get_set_member split: option.splits)

lemma disconnect_participants_others:
  "u' \<noteq> u \<Longrightarrow> member_of (chat_participants (disconnect it u s)) c' u'
           = member_of (chat_participants s) c' u'"
  by (auto simp: disconnect_unfold after_leaving_def fold_leave_chats_participants
        split: option.splits)

lemma disconnect_user_chats:
  assumes "enumerates it"
  shows "member_of (user_chats (disconnect it u s)) u' c'
           = (member_of (user_chats s) u' c' \<and> u' \<noteq> u)"
  using assms
  by (auto simp: disconnect_unfold after_leaving_def fold_leave_chats_user_chats
        enumerates_set get_set_member split: option.splits)

lemma timestamp_of_delete_user:
  "timestamp_of (s\<lparr>typing_timestamps := (typing_timestamps t)(u := None)\<rparr>) u' c'
     = (if u' = u then None else timestamp_of t u' c')"
  by (simp add: timestamp_of_def)

lemma disconnect_timestamps:
  "timestamp_of (disconnect it u s) u' c' = (if u' = u then None else timestamp_of s u' c')"
proof (cases "typing_timestamps (after_leaving it u s) u")
  case None
  then have "timestamp_of (after_leaving it u s) u c' = None"
    by (simp add: timestamp_of_def)
  with None show ?thesis
    by (auto simp: disconnect_unfold after_leaving_def fold_leave_chats_timestamps
          split: if_splits)
next
  case (Some m)
  then show ?thesis
    by (auto simp: disconnect_unfold timestamp_of_delete_user after_leaving_def
          fold_leave_chats_timestamps)
qed

lemma after_leaving_timestamps:
  assumes "enumerates it"
  shows "timestamp_of (after_leaving it u s) u' c'
           = (if u' = u \<and> member_of (user_chats s) u c' then None else timestamp_of s u' c')"
  using assms
  by (simp add: after_leaving_def fold_leave_chats_timestamps enumerates_set get_set_member)

lemma after_leaving_typing_status:
  assumes "enumerates it"
  shows "member_of (typing_status (after_leaving it u s)) c' u'
           = (member_of (typing_status s) c' u' \<and> \<not> (u' = u \<and> member_of (user_chats s) u c'))"
  using assms
  by (auto simp: after_leaving_def fold_leave_chats_typing_status enumerates_set get_set_member)

lemma disconnect_typing_status:
  assumes "enumerates it"
  shows "member_of (typing_status (disconnect it u s)) c' u'
           = (member_of (typing_status s) c' u'
              \<and> \<not> (u' = u \<and> (member_of (user_chats s) u c' \<or> timestamp_of s u c' \<noteq> None)))"
proof (cases "typing_timestamps (after_leaving it u s) u")
  case None
  then have "timestamp_of (after_leaving it u s) u c' = None"
    by (simp add: timestamp_of_def)
  then have "member_of (user_chats s) u c' \<or> timestamp_of s u c' = None"
    by (simp add: after_leaving_timestamps [OF assms] split: if_splits)
  with None show ?thesis
    by (auto simp: disconnect_unfold after_leaving_typing_status [OF assms])
next
  case (Some m)
  have dom: "c' \<in> set (it (fmdom m)) \<longleftrightarrow> timestamp_of (after_leaving it u s) u c' \<noteq> None"
    using assms Some by (auto simp: enumerates_set timestamp_of_def fmlookup_dom_iff)
  show ?thesis
    using Some
    by (auto simp: disconnect_unfold fold_typing_discard_typing_status dom
          after_leaving_timestamps [OF assms] after_leaving_typing_status [OF assms])
qed

section \<open>Properties of the broadcast\<close>

lemma send_personal_message_cases:
  "send_personal_message it dead u data s =
     (if live s dead u then (True, s, [(the (active_connections s u), data)])
      else if broken s dead u then (False, disconnect it u s, [])
      else (False, s, []))"
  by (auto simp: send_personal_message_def live_def broken_def split: option.splits)

lemma live_after_disconnect:
  "u' \<noteq> u \<Longrightarrow> live (disconnect it u s) dead u' = live s dead u'"
  by (simp add: live_def disconnect_active_connections)

lemma broken_after_disconnect:
  "broken (disconnect it u s) dead u' = (u' \<noteq> u \<and> broken s dead u')"
  by (simp add: broken_def disconnect_active_connections)

lemma live_not_broken: "live s dead u \<Longrightarrow> \<not> broken s dead u"
  by (simp add: live_def broken_def split: option.splits)

lemma broadcast_loop_frames:
  "distinct us \<Longrightarrow>
     fst (snd (broadcast_loop it dead data us (s, out, disc)))
       = out @ map (\<lambda>u. (the (active_connections s u), data)) (filter (live s dead) us)"
proof (induction us arbitrary: s out disc)
  case Nil
  then show ?case by simp
next
  case (Cons u us)
  have other: "v \<noteq> u" if "v \<in> set us" for v
    using that Cons.prems by auto
  have keep: "filter (live (disconnect it u s) dead) us = filter (live s dead) us"
    by (rule filter_cong [OF refl]) (simp add: live_after_disconnect other)
  have same: "map (\<lambda>v. (the (active_connections (disconnect it u s) v), data)) (filter (live s dead) us)
                = map (\<lambda>v. (the (active_connections s v), data)) (filter (live s dead) us)"
    by (rule map_cong [OF refl]) (simp add: disconnect_active_connections other)
  from Cons.prems have d: "distinct us" by simp
  show ?case
    by (simp add: send_personal_message_cases Cons.IH [OF d] keep same)
qed

lemma broadcast_loop_disconnected:
  "distinct us \<Longrightarrow>
     snd (snd (broadcast_loop it dead data us (s, out, disc)))
       = disc @ filter (\<lambda>u. \<not> live s dead u) us"
proof (induction us arbitrary: s out disc)
  case Nil
  then show ?case by simp
next
  case (Cons u us)
  have other: "v \<noteq> u" if "v \<in> set us" for v
    using that Cons.prems by auto
  have keep: "filter (\<lambda>v. \<not> live (disconnect it u s) dead v) us = filter (\<lambda>v. \<not> live s dead v) us"
    by (rule filter_cong [OF refl]) (simp add: live_after_disconnect other)
  from Cons.prems have d: "distinct us" by simp
  show ?case
    by (simp add: send_personal_message_cases Cons.IH [OF d] keep)
qed

lemma broadcast_loop_active_connections:
  "active_connections (fst (broadcast_loop it dead data us (s, out, disc))) u'
     = (if u' \<in> set us \<and> broken s dead u' then None else active_connections s u')"
proof (induction us arbitrary: s out disc u')
  case Nil
  then show ?case by simp
next
  case (Cons u us)
  show ?case
    by (auto simp: send_personal_message_cases Cons.IH broken_after_disconnect
          disconnect_active_connections live_not_broken)
qed

lemma broadcast_loop_participants:
  "\<not> (u' \<in> set us \<and> broken s dead u') \<Longrightarrow>
     member_of (chat_participants (fst (broadcast_loop it dead data us (s, out, disc)))) c' u'
       = member_of (chat_participants s) c' u'"
proof (induction us arbitrary: s out disc)
  case Nil
  then show ?case by simp
next
  case (Cons u us)
  show ?case
  proof (cases "broken s dead u \<and> \<not> live s dead u")
    case True
    with Cons.prems have ne: "u' \<noteq> u" by auto
    have "\<not> (u' \<in> set us \<and> broken (disconnect it u s) dead u')"
      using Cons.prems by (auto simp: broken_after_disconnect)
    then show ?thesis
      using True ne
      by (simp add: send_personal_message_cases Cons.IH disconnect_participants_others)
  next
    case False
    have "\<not> (u' \<in> set us \<and> broken s dead u')" using Cons.prems by auto
    then show ?thesis
      using False by (auto simp: send_personal_message_cases Cons.IH live_not_broken)
  qed
qed

lemma broadcast_to_chat_unfold:
  "broadcast_to_chat it dead c data ex s =
     (if broadcast_targets s c ex = {||} then (PyNone, s, [])
      else (PyNone,
            fold (\<lambda>u. leave_chat u c)
              (snd (snd (broadcast_loop it dead data (it (broadcast_targets s c ex)) (s, [], []))))
              (fst (broadcast_loop it dead data (it (broadcast_targets s c ex)) (s, [], []))),
            fst (snd (broadcast_loop it dead data (it (broadcast_targets s c ex)) (s, [], [])))))"
  by (simp add: broadcast_to_chat_def broadcast_targets_def Let_def split: prod.splits)

lemma enumerates_distinct: "enumerates it \<Longrightarrow> distinct (it S)"
  by (simp add: enumerates_def)

lemma enumerates_empty: "enumerates it \<Longrightarrow> it {||} = []"
  by (metis enumerates_def bot_fset.rep_eq fset_of_list.rep_eq set_empty)

text \<open>
  C4 (amended). \<open>broadcast_to_chat\<close> hands back \<open>None\<close>. Whatever the order in which
  the participants are visited, the frames written are the payload, once for each target
  that is live, addressed to that target's socket; a live target keeps its connection and
  its membership of the chat; a target that is not live (its send raises, or the manager
  holds no socket for it) loses its membership of the chat, and one whose send raises
  also its connection entry; the sends to the other targets take place all the same.
  The function has no exceptional outcome: every exception of a send is handled inside
  \<open>send_personal_message\<close>.
\<close>

theorem C4_broadcast_best_effort:
  assumes "enumerates it" and "broadcast_to_chat it dead c data ex s = (r, s', out)"
  shows "r = PyNone
     \<and> out = map (\<lambda>u. (the (active_connections s u), data))
               (filter (live s dead) (it (broadcast_targets s c ex)))
     \<and> (\<forall>u. u |\<in>| broadcast_targets s c ex \<and> live s dead u
            \<longrightarrow> (the (active_connections s u), data) \<in> set out
                \<and> active_connections s' u = active_connections s u
                \<and> member_of (chat_participants s') c u)
     \<and> (\<forall>u. u |\<in>| broadcast_targets s c ex \<and> \<not> live s dead u
            \<longrightarrow> \<not> member_of (chat_participants s') c u)
     \<and> (\<forall>u. u |\<in>| broadcast_targets s c ex \<and> broken s dead u
            \<longrightarrow> active_connections s' u = None)"
proof (cases "broadcast_targets s c ex = {||}")
  case True
  with assms show ?thesis
    by (auto simp: broadcast_to_chat_unfold enumerates_empty)
next
  case False
  let ?us = "it (broadcast_targets s c ex)"
  let ?loop = "broadcast_loop it dead data ?us (s, [], [])"
  have d: "distinct ?us" using assms(1) by (rule enumerates_distinct)
  have r: "r = PyNone" and s': "s' = fold (\<lambda>u. leave_chat u c) (snd (snd ?loop)) (fst ?loop)"
    and out: "out = fst (snd ?loop)"
    using assms(2) False by (simp_all add: broadcast_to_chat_unfold)
  have out': "out = map (\<lambda>u. (the (active_connections s u), data)) (filter (live s dead) ?us)"
    using out broadcast_loop_frames [OF d, of it dead data s "[]" "[]"] by simp
  have disc: "snd (snd ?loop) = filter (\<lambda>u. \<not> live s dead u) ?us"
    using broadcast_loop_disconnected [OF d, of it dead data s "[]" "[]"] by simp
  have mem: "u \<in> set ?us \<longleftrightarrow> u |\<in>| broadcast_targets s c ex" for u
    using assms(1) by (rule enumerates_set)
  have targets: "u |\<in>| broadcast_targets s c ex \<Longrightarrow> member_of (chat_participants s) c u" for u
    by (auto simp: broadcast_targets_def get_set_member split: if_splits)
  have ac: "active_connections s' u
              = (if u \<in> set ?us \<and> broken s dead u then None else active_connections s u)" for u
    unfolding s' by (simp add: broadcast_loop_active_connections)
  have live_case: "(the (active_connections s u), data) \<in> set out
                \<and> active_connections s' u = active_connections s u
                \<and> member_of (chat_participants s') c u"
    if "u |\<in>| broadcast_targets s c ex" and "live s dead u" for u
  proof -
    have nb: "\<not> (u \<in> set ?us \<and> broken s dead u)" using that live_not_broken by blast
    have "member_of (chat_participants (fst ?loop)) c u" 
      using broadcast_loop_participants [OF nb, of it data "[]" "[]" c] targets that by simp
    then have "member_of (chat_participants s') c u"
      unfolding s' using that by (simp add: fold_leave_users_participants disc)
    moreover have "(the (active_connections s u), data) \<in> set out"
      unfolding out' using that mem by auto
    moreover have "active_connections s' u = active_connections s u"
      using nb by (auto simp: ac)
    ultimately show ?thesis by blast
  qed
  have dropped: "\<not> member_of (chat_participants s') c u"
    if "u |\<in>| broadcast_targets s c ex" and "\<not> live s dead u" for u
  proof -
    have "u \<in> set (snd (snd ?loop))" using that mem by (simp add: disc)
    then show ?thesis
      unfolding s' by (simp add: fold_leave_users_participants)
  qed
  have broken_case: "active_connections s' u = None"
    if "u |\<in>| broadcast_targets s c ex" and "broken s dead u" for u
    using that mem by (simp add: ac)
  from r out' live_case dropped broken_case show ?thesis by blast
qed

lemma chat_example_facts:
  "''alice'' |\<in>| broadcast_targets chat_example ''c1'' None"
  "''bob'' |\<in>| broadcast_targets chat_example ''c1'' None"
  "broken chat_example {1} ''alice''"
  "live chat_example {1} ''bob''"
  "active_connections chat_example ''bob'' = Some 2"
  by code_simp+

theorem C4_broadcast_best_effort_witness:
  "enumerates (sorted_list_of_fset :: string fset \<Rightarrow> string list)
   \<and> ''alice'' |\<in>| broadcast_targets chat_example ''c1'' None \<and> broken chat_example {1} ''alice''
   \<and> ''bob'' |\<in>| broadcast_targets chat_example ''c1'' None \<and> live chat_example {1} ''bob''
   \<and> (2, ''hi'') \<in> set (snd (snd (broadcast_to_chat sorted_list_of_fset {1} ''c1'' ''hi'' None chat_example)))
   \<and> member_of (chat_participants
        (fst (snd (broadcast_to_chat sorted_list_of_fset {1} ''c1'' ''hi'' None chat_example)))) ''c1'' ''bob''
   \<and> active_connections
        (fst (snd (broadcast_to_chat sorted_list_of_fset {1} ''c1'' ''hi'' None chat_example))) ''alice'' = None
   \<and> \<not> member_of (chat_participants
        (fst (snd (broadcast_to_chat sorted_list_of_fset {1} ''c1'' ''hi'' None chat_example)))) ''c1'' ''alice''"
proof -
  let ?b = "broadcast_to_chat sorted_list_of_fset {1} ''c1'' ''hi'' None chat_example"
  have b: "?b = (fst ?b, fst (snd ?b), snd (snd ?b))" by simp
  note t = C4_broadcast_best_effort [OF enumerates_sorted b]
  note f = chat_example_facts
  have bob: "(the (active_connections chat_example ''bob''), ''hi'') \<in> set (snd (snd ?b))
             \<and> active_connections (fst (snd ?b)) ''bob'' = active_connections chat_example ''bob''
             \<and> member_of (chat_participants (fst (snd ?b))) ''c1'' ''bob''"
    using t f(2,4) by blast
  have "\<not> live chat_example {1} ''alice''"
    using f(3) live_not_broken by blast
  then have alice1: "\<not> member_of (chat_participants (fst (snd ?b))) ''c1'' ''alice''"
    using t f(1) by blast
  have alice2: "active_connections (fst (snd ?b)) ''alice'' = None"
    using t f(1,3) by blast
  from bob have "(2, ''hi'') \<in> set (snd (snd ?b))" by (simp add: f(5))
  with bob alice1 alice2 f enumerates_sorted show ?thesis by blast
qed

text \<open>
  C4 as stated fails: with Alice's socket dead and Bob's alive, one send succeeds and the
  value handed back is \<open>None\<close>, not the count 1.
\<close>

theorem C4_returns_no_count:
  "snd (snd (broadcast_to_chat sorted_list_of_fset {1} ''c1'' ''hi'' None chat_example)) = [(2, ''hi'')]
   \<and> fst (broadcast_to_chat sorted_list_of_fset {1} ''c1'' ''hi'' None chat_example) \<noteq> PyInt 1"
  by code_simp

section \<open>Typing entries and timestamps agree\<close>

lemma typing_status_start:
  "member_of (typing_status (set_typing_status now u c True s)) c' u'
     = (member_of (typing_status s) c' u' \<or> (c' = c \<and> u' = u))"
  by (simp add: set_typing_status_def Let_def member_of_dict_add)

lemma timestamp_of_start:
  "timestamp_of (set_typing_status now u c True s) u' c'
     = (if u' = u \<and> c' = c then Some now else timestamp_of s u' c')"
  by (auto simp: set_typing_status_def Let_def timestamp_of_def split: option.splits)

lemma typing_consistent_set_typing_status:
  "typing_consistent s \<Longrightarrow> typing_consistent (set_typing_status now u c b s)"
  by (cases b)
     (auto simp: typing_consistent_def typing_status_start timestamp_of_start
        typing_status_stop timestamp_of_stop)

lemma typing_consistent_other_fields [simp]:
  "typing_consistent (s\<lparr>chat_participants := a\<rparr>) = typing_consistent s"
  "typing_consistent (s\<lparr>user_chats := b\<rparr>) = typing_consistent s"
  "typing_consistent (s\<lparr>active_connections := d\<rparr>) = typing_consistent s"
  by (simp_all add: typing_consistent_def)

lemma typing_consistent_join_chat:
  "typing_consistent s \<Longrightarrow> typing_consistent (join_chat u c s)"
  by (simp add: join_chat_def Let_def)

lemma typing_consistent_leave_chat:
  "typing_consistent s \<Longrightarrow> typing_consistent (leave_chat u c s)"
  by (auto simp: typing_consistent_def leave_chat_typing_status leave_chat_timestamps)

lemma typing_consistent_disconnect:
  "enumerates it \<Longrightarrow> typing_consistent s \<Longrightarrow> typing_consistent (disconnect it u s)"
  by (auto simp: typing_consistent_def disconnect_typing_status disconnect_timestamps)

lemma typing_consistent_fold_set_typing_status:
  "typing_consistent s \<Longrightarrow> typing_consistent (fold (\<lambda>u. set_typing_status now u c b) us s)"
  by (induction us arbitrary: s) (simp_all add: typing_consistent_set_typing_status)

lemma typing_consistent_get_typing_users:
  "typing_consistent s \<Longrightarrow> typing_consistent (snd (get_typing_users it now c e s))"
  by (simp add: get_typing_users_state typing_consistent_fold_set_typing_status
        split: option.splits)

lemma typing_consistent_send_personal_message:
  "enumerates it \<Longrightarrow> typing_consistent s
     \<Longrightarrow> typing_consistent (fst (snd (send_personal_message it dead u d s)))"
  by (simp add: send_personal_message_cases typing_consistent_disconnect)

lemma typing_consistent_broadcast_loop:
  "enumerates it \<Longrightarrow> typing_consistent s
     \<Longrightarrow> typing_consistent (fst (broadcast_loop it dead d us (s, out, disc)))"
  by (induction us arbitrary: s out disc)
     (simp_all add: send_personal_message_cases typing_consistent_disconnect)

lemma typing_consistent_fold_leave_users:
  "typing_consistent s \<Longrightarrow> typing_consistent (fold (\<lambda>u. leave_chat u c) us s)"
  by (induction us arbitrary: s) (simp_all add: typing_consistent_leave_chat)

lemma typing_consistent_broadcast_to_chat:
  "enumerates it \<Longrightarrow> typing_consistent s
     \<Longrightarrow> typing_consistent (fst (snd (broadcast_to_chat it dead c d ex s)))"
  by (simp add: broadcast_to_chat_unfold typing_consistent_fold_leave_users
        typing_consistent_broadcast_loop)

lemma typing_consistent_apply_op:
  "enumerates it \<Longrightarrow> typing_consistent s \<Longrightarrow> typing_consistent (apply_op it op s)"
  by (cases op)
     (simp_all add: connect_def typing_consistent_disconnect typing_consistent_join_chat
        typing_consistent_leave_chat typing_consistent_set_typing_status
        typing_consistent_get_typing_users typing_consistent_send_personal_message
        typing_consistent_broadcast_to_chat)

lemma typing_consistent_init: "typing_consistent init_manager"
  by (simp add: typing_consistent_def init_manager_def member_of_def timestamp_of_def)

lemma typing_consistent_run_ops:
  "enumerates it \<Longrightarrow> typing_consistent s \<Longrightarrow> typing_consistent (run_ops it ops s)"
  unfolding run_ops_def
  by (induction ops arbitrary: s) (simp_all add: typing_consistent_apply_op)

section \<open>What a disconnect removes\<close>

text \<open>
  In the manager, in every state a run can reach, \<open>disconnect\<close> removes the user from
  the connection table, from every participant set and from every typing set, so the
  user is no target of a later broadcast.
\<close>

lemma disconnect_removes_user:
  assumes "enumerates it"
  shows "active_connections (disconnect it u (run_ops it ops init_manager)) u = None
       \<and> \<not> member_of (chat_participants (disconnect it u (run_ops it ops init_manager))) c u
       \<and> \<not> member_of (typing_status (disconnect it u (run_ops it ops init_manager))) c u
       \<and> u |\<notin>| broadcast_targets (disconnect it u (run_ops it ops init_manager)) c ex"
proof -
  let ?s = "run_ops it ops init_manager"
  have ic: "index_consistent ?s"
    by (rule index_consistent_run_ops [OF index_consistent_init])
  have tc: "typing_consistent ?s"
    by (rule typing_consistent_run_ops [OF assms typing_consistent_init])
  have a: "active_connections (disconnect it u ?s) u = None"
    by (simp add: disconnect_active_connections)
  have b: "\<not> member_of (chat_participants (disconnect it u ?s)) c u"
    using ic by (simp add: disconnect_participants [OF assms] index_consistent_def)
  have d: "\<not> member_of (typing_status (disconnect it u ?s)) c u"
    using tc by (auto simp: disconnect_typing_status [OF assms] typing_consistent_def)
  have e: "u |\<notin>| broadcast_targets (disconnect it u ?s) c ex"
    using b by (auto simp: broadcast_targets_def get_set_member)
  from a b d e show ?thesis by blast
qed

section \<open>Properties of the legacy cleanup\<close>

lemma broadcast_typing_event_fields [simp]:
  "user_connections (fst (broadcast_typing_event env dead c u n s)) = user_connections s"
  "authenticated_users (fst (broadcast_typing_event env dead c u n s)) = authenticated_users s"
  "typing_users (fst (broadcast_typing_event env dead c u n s)) = typing_users s"
  "user_typing_in (fst (broadcast_typing_event env dead c u n s)) = user_typing_in s"
  "message_tracking (fst (broadcast_typing_event env dead c u n s)) = message_tracking s"
  "user_last_read_time (fst (broadcast_typing_event env dead c u n s)) = user_last_read_time s"
  "serving (fst (broadcast_typing_event env dead c u n s)) = serving s"
  "next_socket (fst (broadcast_typing_event env dead c u n s)) = next_socket s"
proof -
  have "user_connections (fold (\<lambda>w t. t\<lparr>connected_clients := connected_clients t |-| {|w|}\<rparr>) ws t) = user_connections t
    \<and> authenticated_users (fold (\<lambda>w t. t\<lparr>connected_clients := connected_clients t |-| {|w|}\<rparr>) ws t) = authenticated_users t
    \<and> typing_users (fold (\<lambda>w t. t\<lparr>connected_clients := connected_clients t |-| {|w|}\<rparr>) ws t) = typing_users t
    \<and> user_typing_in (fold (\<lambda>w t. t\<lparr>connected_clients := connected_clients t |-| {|w|}\<rparr>) ws t) = user_typing_in t
    \<and> message_tracking (fold (\<lambda>w t. t\<lparr>connected_clients := connected_clients t |-| {|w|}\<rparr>) ws t) = message_tracking t
    \<and> user_last_read_time (fold (\<lambda>w t. t\<lparr>connected_clients := connected_clients t |-| {|w|}\<rparr>) ws t) = user_last_read_time t
    \<and> serving (fold (\<lambda>w t. t\<lparr>connected_clients := connected_clients t |-| {|w|}\<rparr>) ws t) = serving t
    \<and> next_socket (fold (\<lambda>w t. t\<lparr>connected_clients := connected_clients t |-| {|w|}\<rparr>) ws t) = next_socket t"
    for ws :: "websocket list" and t :: legacy
    by (induction ws arbitrary: t) simp_all
  then show
  "user_connections (fst (broadcast_typing_event env dead c u n s)) = user_connections s"
  "authenticated_users (fst (broadcast_typing_event env dead c u n s)) = authenticated_users s"
  "typing_users (fst (broadcast_typing_event env dead c u n s)) = typing_users s"
  "user_typing_in (fst (broadcast_typing_event env dead c u n s)) = user_typing_in s"
  "message_tracking (fst (broadcast_typing_event env dead c u n s)) = message_tracking s"
  "user_last_read_time (fst (broadcast_typing_event env dead c u n s)) = user_last_read_time s"
  "serving (fst (broadcast_typing_event env dead c u n s)) = serving s"
  "next_socket (fst (broadcast_typing_event env dead c u n s)) = next_socket s"
    by (simp_all add: broadcast_typing_event_def Let_def)
qed

lemma cleanup_connection_user_connections:
  "user_connections (fst (cleanup_connection env dead ws s))
     = (case authenticated_users s ws of None \<Rightarrow> user_connections s
        | Some u \<Rightarrow> (user_connections s)(u := None))"
  by (simp add: cleanup_connection_def Let_def split_beta split: option.splits)

text \<open>
  C10. Cleanup goes by the user, not by the socket. In the manager, after \<open>disconnect\<close>
  for a user (in any state a run can reach) the user has no entry in
  \<open>active_connections\<close> and is in no participant set, whichever socket the entry named.
  In the legacy transport, after \<open>cleanup_connection\<close> for any socket authenticated as a
  user, the user has no entry in \<open>user_connections\<close>, whichever socket the entry named.
  The witness is the case the claim singles out: the entry removed belongs to a newer
  socket that replaced the one being cleaned up and is still served.
\<close>

theorem C10_cleanup_keyed_by_user:
  assumes "enumerates it"
  shows "active_connections (disconnect it u (run_ops it ops init_manager)) u = None
       \<and> \<not> member_of (chat_participants (disconnect it u (run_ops it ops init_manager))) c u
       \<and> (authenticated_users t ws = Some u
            \<longrightarrow> user_connections (fst (cleanup_connection env dead ws t)) u = None)"
  using disconnect_removes_user [OF assms, of u ops c]
  by (simp add: cleanup_connection_user_connections)

lemma duplicate_login_facts:
  "authenticated_users duplicate_login 0 = Some ''alice''"
  "authenticated_users duplicate_login 1 = Some ''alice''"
  "user_connections duplicate_login ''alice'' = Some 1"
  "1 |\<in>| serving duplicate_login"
  by code_simp+

lemma replaced_example_facts:
  "active_connections replaced_example ''alice'' = Some 2"
  "member_of (chat_participants replaced_example) ''c1'' ''alice''"
  by code_simp+

theorem C10_cleanup_keyed_by_user_witness:
  "enumerates (sorted_list_of_fset :: string fset \<Rightarrow> string list)
   \<and> active_connections replaced_example ''alice'' = Some 2
   \<and> member_of (chat_participants replaced_example) ''c1'' ''alice''
   \<and> active_connections (disconnect sorted_list_of_fset ''alice'' replaced_example) ''alice'' = None
   \<and> \<not> member_of (chat_participants (disconnect sorted_list_of_fset ''alice'' replaced_example))
          ''c1'' ''alice''
   \<and> authenticated_users duplicate_login 0 = Some ''alice''
   \<and> user_connections duplicate_login ''alice'' = Some 1
   \<and> 1 |\<in>| serving duplicate_login
   \<and> user_connections (fst (cleanup_connection example_env {} 0 duplicate_login)) ''alice'' = None"
  using C10_cleanup_keyed_by_user [OF enumerates_sorted, of "''alice''"
      "[Connect True 1 ''alice'', JoinChat ''alice'' ''c1'', Connect True 2 ''alice'']"
      "''c1''" duplicate_login 0 example_env "{}"]
    duplicate_login_facts replaced_example_facts enumerates_sorted
  by (simp add: replaced_example_def)

section \<open>Typing in the legacy transport\<close>

text \<open>
  C9 fails on the code: after \<open>typing_start\<close> for chat c1 and then for chat c2, Alice is
  in the typing sets of both chats, while \<open>user_typing_in\<close> names only c2.
\<close>

theorem C9_typing_in_two_chats:
  "member_of (typing_users typing_twice) ''c1'' ''alice''
   \<and> member_of (typing_users typing_twice) ''c2'' ''alice''
   \<and> user_typing_in typing_twice ''alice'' = Some ''c2''"
  by code_simp

text \<open>
  C2 fails on the legacy transport: when the socket of that Alice goes away, the cleanup
  removes her from the typing set of c2 only; she stays in the typing set of c1 although
  she has no connection left.
\<close>

theorem C2_stale_typing_after_cleanup:
  "authenticated_users (fst (websocket_handler example_env (Disconnected {} 0) typing_twice)) 0 = None
   \<and> user_connections (fst (websocket_handler example_env (Disconnected {} 0) typing_twice)) ''alice'' = None
   \<and> \<not> member_of (typing_users (fst (websocket_handler example_env (Disconnected {} 0) typing_twice)))
          ''c2'' ''alice''
   \<and> member_of (typing_users (fst (websocket_handler example_env (Disconnected {} 0) typing_twice)))
          ''c1'' ''alice''"
  by code_simp

section \<open>Delivery tracking in the legacy transport\<close>

lemma progressD:
  assumes "progress M i j"
  shows "sender_ws j = sender_ws i" "receiver_id j = receiver_id i"
    "status j = status i \<or> status j = ''delivered''"
    "recipients i |\<subseteq>| recipients j" "delivered_to i |\<subseteq>| delivered_to j"
    "read_by i |\<subseteq>| read_by j"
    "\<And>w. w |\<in>| read_by j \<Longrightarrow> w |\<notin>| read_by i \<Longrightarrow> w \<in> M \<or> w |\<in>| recipients j"
  using assms by (simp_all add: progress_def)

lemma progress_trans:
  assumes ij: "progress M i j" and jk: "progress M j k"
  shows "progress M i k"
proof -
  note a = progressD [OF ij] and b = progressD [OF jk]
  have 1: "sender_ws k = sender_ws i" "receiver_id k = receiver_id i"
    using a(1,2) b(1,2) by simp_all
  have 2: "status k = status i \<or> status k = ''delivered''"
    using a(3) b(3) by auto
  have 3: "recipients i |\<subseteq>| recipients k" "delivered_to i |\<subseteq>| delivered_to k"
    "read_by i |\<subseteq>| read_by k"
    using a(4,5,6) b(4,5,6) by blast+
  have 4: "w \<in> M \<or> w |\<in>| recipients k" if "w |\<in>| read_by k" and "w |\<notin>| read_by i" for w
  proof (cases "w |\<in>| read_by j")
    case True
    with that a(7) have "w \<in> M \<or> w |\<in>| recipients j" by blast
    with b(4) show ?thesis by blast
  next
    case False
    with that b(7) show ?thesis by blast
  qed
  show ?thesis
    unfolding progress_def using 1 2 3 4 by simp
qed

lemma moves_refl [simp]: "moves M s s"
  by (simp add: moves_def split: option.splits)

lemma movesD:
  assumes "moves M s t"
  shows "fmlookup (message_tracking s) mid = None \<Longrightarrow> fmlookup (message_tracking t) mid = None"
    "fmlookup (message_tracking s) mid = Some i
       \<Longrightarrow> \<exists>j. fmlookup (message_tracking t) mid = Some j \<and> progress M i j"
    "authenticated_users t = authenticated_users s" "serving t = serving s"
    "next_socket t = next_socket s" "tracking_ok s \<Longrightarrow> tracking_ok t"
proof -
  have rec: "case fmlookup (message_tracking s) mid of
               None \<Rightarrow> fmlookup (message_tracking t) mid = None
             | Some i \<Rightarrow> (\<exists>j. fmlookup (message_tracking t) mid = Some j \<and> progress M i j)"
    using assms by (simp add: moves_def)
  show "fmlookup (message_tracking s) mid = None \<Longrightarrow> fmlookup (message_tracking t) mid = None"
    using rec by simp
  show "fmlookup (message_tracking s) mid = Some i
       \<Longrightarrow> \<exists>j. fmlookup (message_tracking t) mid = Some j \<and> progress M i j"
    using rec by simp
  show "authenticated_users t = authenticated_users s" "serving t = serving s"
    "next_socket t = next_socket s" "tracking_ok s \<Longrightarrow> tracking_ok t"
    using assms by (simp_all add: moves_def)
qed

lemma movesI:
  assumes "\<And>mid. fmlookup (message_tracking s) mid = None
             \<Longrightarrow> fmlookup (message_tracking t) mid = None"
    and "\<And>mid i. fmlookup (message_tracking s) mid = Some i
             \<Longrightarrow> \<exists>j. fmlookup (message_tracking t) mid = Some j \<and> progress M i j"
    and "authenticated_users t = authenticated_users s" and "serving t = serving s"
    and "next_socket t = next_socket s" and "tracking_ok s \<Longrightarrow> tracking_ok t"
  shows "moves M s t"
  unfolding moves_def using assms by (simp split: option.splits)

lemma moves_trans:
  assumes st: "moves M s t" and tu: "moves M t u"
  shows "moves M s u"
proof (rule movesI)
  fix mid
  assume "fmlookup (message_tracking s) mid = None"
  then show "fmlookup (message_tracking u) mid = None"
    using movesD(1) [OF st] movesD(1) [OF tu] by blast
next
  fix mid i
  assume "fmlookup (message_tracking s) mid = Some i"
  then obtain j where j: "fmlookup (message_tracking t) mid = Some j" "progress M i j"
    using movesD(2) [OF st] by blast
  then obtain k where k: "fmlookup (message_tracking u) mid = Some k" "progress M j k"
    using movesD(2) [OF tu] by blast
  from j k show "\<exists>k. fmlookup (message_tracking u) mid = Some k \<and> progress M i k"
    by (blast intro: progress_trans)
qed (use movesD(3-6) [OF st] movesD(3-6) [OF tu] in simp_all)

lemma moves_same_tracking:
  "message_tracking s' = message_tracking s \<Longrightarrow> authenticated_users s' = authenticated_users s
     \<Longrightarrow> serving s' = serving s \<Longrightarrow> next_socket s' = next_socket s \<Longrightarrow> moves M s s'"
  by (rule movesI) (simp_all add: tracking_ok_def)

lemma update_info_fields [simp]:
  "authenticated_users (update_info mid f s) = authenticated_users s"
  "serving (update_info mid f s) = serving s"
  "next_socket (update_info mid f s) = next_socket s"
  "connected_clients (update_info mid f s) = connected_clients s"
  "user_connections (update_info mid f s) = user_connections s"
  "user_last_read_time (update_info mid f s) = user_last_read_time s"
  "typing_users (update_info mid f s) = typing_users s"
  "user_typing_in (update_info mid f s) = user_typing_in s"
  by (simp_all add: update_info_def split: option.splits)

lemma update_info_lookup:
  "fmlookup (message_tracking (update_info mid f s)) mid'
     = (if mid' = mid then map_option f (fmlookup (message_tracking s) mid)
        else fmlookup (message_tracking s) mid')"
  by (auto simp: update_info_def split: option.splits)

lemma moves_update_info:
  assumes "\<And>i. fmlookup (message_tracking s) mid = Some i
             \<Longrightarrow> progress M i (f i) \<and> (tracked_ok i \<longrightarrow> tracked_ok (f i))"
  shows "moves M s (update_info mid f s)"
proof (rule movesI)
  fix m
  assume "fmlookup (message_tracking s) m = None"
  then show "fmlookup (message_tracking (update_info mid f s)) m = None"
    by (auto simp: update_info_lookup)
next
  fix m i
  assume "fmlookup (message_tracking s) m = Some i"
  then show "\<exists>j. fmlookup (message_tracking (update_info mid f s)) m = Some j \<and> progress M i j"
    using assms by (auto simp: update_info_lookup)
next
  assume ok: "tracking_ok s"
  show "tracking_ok (update_info mid f s)"
    unfolding tracking_ok_def
  proof (intro allI impI)
    fix m j
    assume j: "fmlookup (message_tracking (update_info mid f s)) m = Some j"
    show "tracked_ok j"
    proof (cases "m = mid")
      case True
      with j obtain i where i: "fmlookup (message_tracking s) mid = Some i" "j = f i"
        by (auto simp: update_info_lookup)
      with ok have "tracked_ok i" by (simp add: tracking_ok_def)
      with assms i show ?thesis by simp
    next
      case False
      with j ok show ?thesis by (simp add: update_info_lookup tracking_ok_def)
    qed
  qed
qed simp_all

text \<open>The state after each way of combining outcomes.\<close>

lemma state_of_send_text [simp]: "state_of (send_text dead ws f s) = s"
  by (simp add: state_of_def send_text_def)

lemma state_of_unchanged [simp]: "state_of (unchanged s) = s"
  by (simp add: state_of_def unchanged_def)

lemma state_of_caught [simp]: "state_of (caught r) = state_of r"
  by (simp add: state_of_def caught_def split: prod.splits)

lemma state_of_and_then:
  "state_of (and_then r k) = (if fst r = None then state_of (k (state_of r)) else state_of r)"
  by (auto simp: state_of_def and_then_def split: prod.splits option.splits)

lemma state_of_triple [simp]: "state_of (e, s, out) = s"
  by (simp add: state_of_def)

lemma moves_and_then:
  assumes "moves M s (state_of r)" and "\<And>t. t = state_of r \<Longrightarrow> fst r = None \<Longrightarrow> moves M t (state_of (k t))"
  shows "moves M s (state_of (and_then r k))"
  using assms by (auto simp: state_of_and_then intro: moves_trans)

lemma fst_send_text: "fst (send_text dead ws f s) = (if ws \<in> dead then Some TransportError else None)"
  by (simp add: send_text_def)

lemma progress_mark_read:
  "w \<in> M \<or> w |\<in>| recipients i \<Longrightarrow> progress M i (i\<lparr>read_by := finsert w (read_by i)\<rparr>)"
  by (auto simp: progress_def)

lemma tracked_ok_mark_read:
  "tracked_ok i \<Longrightarrow> tracked_ok (i\<lparr>read_by := r\<rparr>)"
  by (simp add: tracked_ok_def)

lemma moves_mark_read:
  assumes "\<And>i. fmlookup (message_tracking s) mid = Some i \<Longrightarrow> w \<in> M \<or> w |\<in>| recipients i"
  shows "moves M s (update_info mid (\<lambda>i. i\<lparr>read_by := finsert w (read_by i)\<rparr>) s)"
  by (rule moves_update_info) (simp add: progress_mark_read tracked_ok_mark_read assms)

lemma auto_check_read_status_state:
  "state_of (auto_check_read_status env dead w mid ts s) = s
   \<or> state_of (auto_check_read_status env dead w mid ts s)
       = update_info mid (\<lambda>i. i\<lparr>read_by := finsert w (read_by i)\<rparr>) s"
  by (simp add: auto_check_read_status_def Let_def split: option.splits)

lemma moves_auto_check_read_status:
  assumes "\<And>i. fmlookup (message_tracking s) mid = Some i \<Longrightarrow> w |\<in>| recipients i"
  shows "moves M s (state_of (auto_check_read_status env dead w mid ts s))"
  using auto_check_read_status_state [of env dead w mid ts s] moves_mark_read [of s mid w M] assms
  by auto

lemma progress_delivered:
  "progress M i (i\<lparr>recipients := finsert w (recipients i),
                  delivered_to := finsert w (delivered_to i), status := ''delivered''\<rparr>)"
  by (auto simp: progress_def)

lemma tracked_ok_delivered:
  "tracked_ok i \<Longrightarrow> tracked_ok (i\<lparr>recipients := finsert w (recipients i),
                  delivered_to := finsert w (delivered_to i), status := ''delivered''\<rparr>)"
  by (auto simp: tracked_ok_def)

lemma moves_deliver_to_user: "moves M s (state_of (deliver_to_user env dead mid receiver s))"
proof (cases "fmlookup (message_tracking s) mid")
  case None
  then show ?thesis by (simp add: deliver_to_user_def)
next
  case (Some info)
  show ?thesis
  proof (cases "user_connections s receiver")
    case None
    with Some show ?thesis by (simp add: deliver_to_user_def)
  next
    case (Some w)
    let ?t = "update_info mid
                (\<lambda>i. i\<lparr>recipients := finsert w (recipients i),
                        delivered_to := finsert w (delivered_to i),
                        status := ''delivered''\<rparr>) s"
    have t: "moves M s ?t"
      by (rule moves_update_info) (simp add: progress_delivered tracked_ok_delivered)
    have "w |\<in>| recipients i" if "fmlookup (message_tracking ?t) mid = Some i" for i
      using that by (auto simp: update_info_lookup)
    then have "moves M ?t (state_of (auto_check_read_status env dead w mid (timestamp info) ?t))"
      by (rule moves_auto_check_read_status)
    with t have u: "moves M s (state_of (auto_check_read_status env dead w mid (timestamp info) ?t))"
      by (rule moves_trans)
    show ?thesis
      using Some \<open>fmlookup (message_tracking s) mid = Some info\<close> t u
      by (simp add: deliver_to_user_def state_of_and_then fst_send_text)
  qed
qed


lemma broadcast_record_moves:
  assumes "moves M s t" and "broadcast_record s mid"
  shows "broadcast_record t mid"
  unfolding broadcast_record_def
proof (intro allI impI)
  fix j
  assume j: "fmlookup (message_tracking t) mid = Some j"
  show "\<not> truthy (receiver_id j)"
  proof (cases "fmlookup (message_tracking s) mid")
    case None
    with movesD(1) [OF assms(1)] j show ?thesis by simp
  next
    case (Some i)
    with movesD(2) [OF assms(1)] j have "progress M i j" by fastforce
    then have "receiver_id j = receiver_id i" by (rule progressD)
    with assms(2) Some show ?thesis by (simp add: broadcast_record_def)
  qed
qed

lemma progress_recipient:
  "progress M i (i\<lparr>recipients := finsert w (recipients i)\<rparr>)"
  by (auto simp: progress_def)

lemma tracked_ok_recipient:
  "\<not> truthy (receiver_id i) \<Longrightarrow> tracked_ok i
     \<Longrightarrow> tracked_ok (i\<lparr>recipients := finsert w (recipients i)\<rparr>)"
  by (simp add: tracked_ok_def)

lemma moves_broadcast_step:
  assumes "broadcast_record s mid"
  shows "moves M s (state_of (auto_check_read_status env dead w mid ts
           (update_info mid (\<lambda>i. i\<lparr>recipients := finsert w (recipients i)\<rparr>) s)))"
proof -
  let ?t = "update_info mid (\<lambda>i. i\<lparr>recipients := finsert w (recipients i)\<rparr>) s"
  have t: "moves M s ?t"
    using assms
    by (intro moves_update_info) (simp add: progress_recipient tracked_ok_recipient broadcast_record_def)
  have "w |\<in>| recipients i" if "fmlookup (message_tracking ?t) mid = Some i" for i
    using that by (auto simp: update_info_lookup)
  then have "moves M ?t (state_of (auto_check_read_status env dead w mid ts ?t))"
    by (rule moves_auto_check_read_status)
  with t show ?thesis by (rule moves_trans)
qed

lemma moves_connected_clients [simp]:
  "moves M s (s\<lparr>connected_clients := x\<rparr>)"
  by (rule moves_same_tracking) simp_all

lemma moves_broadcast_message_loop:
  "broadcast_record s mid \<Longrightarrow>
     moves M s (fst (snd (broadcast_message_loop env dead sender mid ts ws s n out)))"
proof (induction ws arbitrary: s n out)
  case Nil
  then show ?case by simp
next
  case (Cons w ws)
  let ?t = "state_of (auto_check_read_status env dead w mid ts
              (update_info mid (\<lambda>i. i\<lparr>recipients := finsert w (recipients i)\<rparr>) s))"
  have st: "moves M s ?t" using Cons.prems by (rule moves_broadcast_step)
  then have "broadcast_record ?t mid" using Cons.prems by (rule broadcast_record_moves)
  then have "moves M ?t (fst (snd (broadcast_message_loop env dead sender mid ts ws ?t n' out')))"
    for n' out'
    by (rule Cons.IH)
  with st have step: "moves M s (fst (snd (broadcast_message_loop env dead sender mid ts ws ?t n' out')))"
    for n' out'
    by (rule moves_trans)
  show ?case
    using Cons.IH [OF Cons.prems] step
    by (simp add: state_of_def case_prod_beta)
qed

lemma progress_status_delivered: "progress M i (i\<lparr>status := ''delivered''\<rparr>)"
  by (auto simp: progress_def)

lemma tracked_ok_status_delivered: "tracked_ok i \<Longrightarrow> tracked_ok (i\<lparr>status := ''delivered''\<rparr>)"
  by (simp add: tracked_ok_def)

lemma moves_broadcast_message:
  assumes "broadcast_record s mid"
  shows "moves M s (state_of (broadcast_message env dead sender mid ts s))"
proof (cases "fmlookup (message_tracking s) mid")
  case None
  then show ?thesis by (simp add: broadcast_message_def)
next
  case (Some info)
  obtain e t n out where loop:
    "broadcast_message_loop env dead sender mid ts (visit_sockets env (connected_clients s)) s 0 []
       = (e, t, n, out)"
    by (metis prod_cases4)
  have t: "moves M s t"
    using moves_broadcast_message_loop [OF assms, of M env dead sender ts
        "visit_sockets env (connected_clients s)" 0 "[]"] loop
    by simp
  have "moves M t (update_info mid (\<lambda>i. i\<lparr>status := ''delivered''\<rparr>) t)"
    by (rule moves_update_info) (simp add: progress_status_delivered tracked_ok_status_delivered)
  with t have u: "moves M s (update_info mid (\<lambda>i. i\<lparr>status := ''delivered''\<rparr>) t)"
    by (rule moves_trans)
  show ?thesis
    using Some loop t u
    by (cases e) (simp_all add: broadcast_message_def state_of_and_then)
qed

lemma moves_auto_read_loop:
  "moves M s (fst (auto_read_loop env dead w reader lrt mids s out))"
proof (induction mids arbitrary: s out)
  case Nil
  then show ?case by simp
next
  case (Cons mid mids)
  show ?case
  proof (cases "fmlookup (message_tracking s) mid")
    case None
    then show ?thesis using Cons.IH by simp
  next
    case (Some info)
    let ?t = "update_info mid (\<lambda>i. i\<lparr>read_by := finsert w (read_by i)\<rparr>) s"
    show ?thesis
    proof (cases "w \<noteq> sender_ws info \<and> w |\<notin>| read_by info \<and> w |\<in>| recipients info
                   \<and> not_before env lrt (timestamp info)")
      case True
      then have "moves M s ?t"
        using Some by (intro moves_mark_read) simp
      then have "moves M s (fst (auto_read_loop env dead w reader lrt mids ?t out'))" for out'
        using Cons.IH [of ?t out'] by (rule moves_trans)
      then show ?thesis using Some True by (simp add: Let_def)
    next
      case False
      then show ?thesis using Some Cons.IH [of s out] by auto
    qed
  qed
qed

lemma moves_check_all_messages_for_auto_read:
  "moves M s (state_of (check_all_messages_for_auto_read env dead w lrt s))"
  using moves_auto_read_loop [of M s env dead w]
  by (simp add: check_all_messages_for_auto_read_def state_of_def case_prod_beta unchanged_def)

lemma moves_user_last_read_time [simp]:
  "moves M s (s\<lparr>user_last_read_time := x\<rparr>)"
  by (rule moves_same_tracking) simp_all

lemma moves_handle_update_last_read_time:
  "moves M s (state_of (handle_update_last_read_time env dead w t s))"
proof -
  have "moves M s (state_of (check_all_messages_for_auto_read env dead w lrt
                     (s\<lparr>user_last_read_time := x\<rparr>)))" for lrt x
    by (rule moves_trans [OF moves_user_last_read_time moves_check_all_messages_for_auto_read])
  then show ?thesis by (simp add: handle_update_last_read_time_def)
qed

lemma moves_handle_message_read:
  "moves {w} s (state_of (handle_message_read dead w m s))"
proof -
  have "moves {w} s (update_info mid (\<lambda>i. i\<lparr>read_by := finsert w (read_by i)\<rparr>) s)" for mid
    by (rule moves_mark_read) simp
  then show ?thesis
    by (simp add: handle_message_read_def state_of_and_then split: option.splits)
qed

lemma moves_weaken:
  assumes m: "moves M s t" and sub: "M \<subseteq> N"
  shows "moves N s t"
proof (rule movesI)
  fix mid i
  assume i: "fmlookup (message_tracking s) mid = Some i"
  then obtain j where j: "fmlookup (message_tracking t) mid = Some j" "progress M i j"
    using movesD(2) [OF m] by blast
  note p = progressD [OF j(2)]
  have "progress N i j"
    unfolding progress_def using p sub by auto
  with j show "\<exists>j. fmlookup (message_tracking t) mid = Some j \<and> progress N i j" by blast
next
  fix mid
  assume "fmlookup (message_tracking s) mid = None"
  then show "fmlookup (message_tracking t) mid = None" by (rule movesD(1) [OF m])
next
  show "authenticated_users t = authenticated_users s" by (rule movesD(3) [OF m])
  show "serving t = serving s" by (rule movesD(4) [OF m])
  show "next_socket t = next_socket s" by (rule movesD(5) [OF m])
  show "tracking_ok s \<Longrightarrow> tracking_ok t" by (rule movesD(6) [OF m])
qed

lemma moves_typing_fields [simp]:
  "moves M s (s\<lparr>typing_users := x\<rparr>)"
  "moves M s (s\<lparr>user_typing_in := y\<rparr>)"
  "moves M s (s\<lparr>typing_users := x, user_typing_in := y\<rparr>)"
  by (rule moves_same_tracking, simp_all)+

lemma moves_broadcast_typing_event:
  "moves M s (fst (broadcast_typing_event env dead c u n s))"
  by (rule moves_same_tracking) simp_all

lemma state_of_case_pair [simp]:
  "state_of (case p of (s', out) \<Rightarrow> (e, s', out)) = fst p"
  by (simp add: state_of_def case_prod_beta)

lemma state_of_pair [simp]: "state_of (e, p) = fst p"
  by (simp add: state_of_def)

lemma moves_handle_typing_start:
  "moves M s (state_of (handle_typing_start env dead w c s))"
proof -
  have "moves M s (fst (broadcast_typing_event env dead c' u n
                     (s\<lparr>typing_users := x, user_typing_in := y\<rparr>)))" for c' u n x y
    by (rule moves_same_tracking) simp_all
  then show ?thesis
    by (simp add: handle_typing_start_def state_of_and_then Let_def split: option.splits)
qed

lemma moves_handle_typing_stop:
  "moves M s (state_of (handle_typing_stop env dead w c s))"
proof -
  have a: "moves M s (fst (broadcast_typing_event env dead c' u n
                     (s\<lparr>typing_users := x, user_typing_in := y\<rparr>)))" for c' u n x y
    by (rule moves_same_tracking) simp_all
  have b: "moves M s (fst (broadcast_typing_event env dead c' u n
                     (s\<lparr>typing_users := x\<rparr>)))" for c' u n x
    by (rule moves_same_tracking) simp_all
  show ?thesis
    using a b
    by (simp add: handle_typing_stop_def state_of_and_then Let_def split: option.splits)
qed

lemma moves_handle_status_check:
  "moves M s (state_of (handle_status_check dead w u s))"
  by (simp add: handle_status_check_def)

lemma handle_login_state:
  "message_tracking (state_of (fst (handle_login env dead w tok s))) = message_tracking s
   \<and> serving (state_of (fst (handle_login env dead w tok s))) = serving s
   \<and> next_socket (state_of (fst (handle_login env dead w tok s))) = next_socket s
   \<and> (authenticated_users (state_of (fst (handle_login env dead w tok s))) = authenticated_users s
      \<or> (\<exists>u. authenticated_users (state_of (fst (handle_login env dead w tok s)))
                = (authenticated_users s)(w \<mapsto> u)))"
  by (auto simp: handle_login_def Let_def)

lemma tracked_ok_new_record: "tracked_ok (new_record w sender d now)"
  by (simp add: tracked_ok_def new_record_def)

lemma handle_send_chat_state:
  "state_of (handle_send_chat env dead now w d s) = s
   \<or> (\<exists>sender. authenticated_users s w = Some sender \<and> truthy (sc_id d)
         \<and> moves {} (s\<lparr>message_tracking :=
                         fmupd (the (sc_id d)) (new_record w sender d now) (message_tracking s)\<rparr>)
              (state_of (handle_send_chat env dead now w d s)))"
proof (cases "authenticated_users s w")
  case None
  then show ?thesis by (simp add: handle_send_chat_def)
next
  case (Some sender)
  show ?thesis
  proof (cases "truthy (sc_id d)")
    case False
    with Some show ?thesis by (simp add: handle_send_chat_def)
  next
    case True
    let ?mid = "the (sc_id d)"
    let ?s1 = "s\<lparr>message_tracking := fmupd ?mid (new_record w sender d now) (message_tracking s)\<rparr>"
    let ?ts = "case sc_timestamp d of None \<Rightarrow> now | Some t \<Rightarrow> t"
    have direct: "moves {} ?s1 (state_of (deliver_to_user env dead ?mid r ?s1))" for r
      by (rule moves_deliver_to_user)
    have "\<not> truthy (sc_receiver_id d) \<Longrightarrow> broadcast_record ?s1 ?mid"
      by (simp add: broadcast_record_def new_record_def)
    then have bc: "\<not> truthy (sc_receiver_id d)
                 \<Longrightarrow> moves {} ?s1 (state_of (broadcast_message env dead w ?mid ?ts ?s1))"
      by (rule moves_broadcast_message)
    have st: "state_of (handle_send_chat env dead now w d s)
                = (if w \<in> dead then ?s1
                   else if truthy (sc_receiver_id d)
                   then state_of (deliver_to_user env dead ?mid (the (sc_receiver_id d)) ?s1)
                   else state_of (broadcast_message env dead w ?mid ?ts ?s1))"
      using Some True
      by (simp add: handle_send_chat_def Let_def state_of_and_then fst_send_text new_record_def)
    have "moves {} ?s1 (state_of (handle_send_chat env dead now w d s))"
      unfolding st using direct bc by simp
    with Some True show ?thesis by blast
  qed
qed

lemma cleanup_connection_state:
  "message_tracking (fst (cleanup_connection env dead w s)) = fmmap (strip w) (message_tracking s)"
  "authenticated_users (fst (cleanup_connection env dead w s)) = (authenticated_users s)(w := None)"
  "serving (fst (cleanup_connection env dead w s)) = serving s"
  "next_socket (fst (cleanup_connection env dead w s)) = next_socket s"
proof -
  have eq: "(\<lambda>i. i\<lparr>recipients := recipients i |-| {|w|},
                    delivered_to := delivered_to i |-| {|w|},
                    read_by := read_by i |-| {|w|}\<rparr>) = strip w"
    by (rule ext) (simp add: strip_def)
  show "message_tracking (fst (cleanup_connection env dead w s)) = fmmap (strip w) (message_tracking s)"
    by (simp add: cleanup_connection_def Let_def case_prod_beta eq split: option.splits)
  show "authenticated_users (fst (cleanup_connection env dead w s)) = (authenticated_users s)(w := None)"
    by (auto simp: cleanup_connection_def Let_def case_prod_beta split: option.splits)
  show "serving (fst (cleanup_connection env dead w s)) = serving s"
    by (simp add: cleanup_connection_def Let_def case_prod_beta split: option.splits)
  show "next_socket (fst (cleanup_connection env dead w s)) = next_socket s"
    by (simp add: cleanup_connection_def Let_def case_prod_beta split: option.splits)
qed

lemma end_of_loop_state:
  "message_tracking (fst (end_of_loop env dead w s)) = fmmap (strip w) (message_tracking s)"
  "authenticated_users (fst (end_of_loop env dead w s)) = (authenticated_users s)(w := None)"
  "serving (fst (end_of_loop env dead w s)) = serving s |-| {|w|}"
  "next_socket (fst (end_of_loop env dead w s)) = next_socket s"
  by (simp_all add: end_of_loop_def case_prod_beta cleanup_connection_state)

lemma websocket_handler_receive:
  "fst (websocket_handler env (Receive dead now w ev) s)
     = (if w |\<notin>| serving s then s
        else if fst (fst (dispatch env dead now w ev s)) = None \<and> snd (dispatch env dead now w ev s)
        then state_of (fst (dispatch env dead now w ev s))
        else fst (end_of_loop env dead w (state_of (fst (dispatch env dead now w ev s)))))"
proof -
  obtain r b where rb: "dispatch env dead now w ev s = (r, b)"
    by (cases "dispatch env dead now w ev s")
  obtain e t out where r: "r = (e, t, out)"
    by (cases r)
  show ?thesis
    by (cases e; cases b) (simp_all add: rb r case_prod_beta)
qed

lemma dispatch_moves:
  assumes "\<And>tok. ev \<noteq> Login tok" and "\<And>d. ev \<noteq> SendChat d"
  shows "moves {w} s (state_of (fst (dispatch env dead now w ev s)))"
proof (cases ev)
  case (Login tok)
  with assms(1) show ?thesis by blast
next
  case (SendChat d)
  with assms(2) show ?thesis by blast
next
  case (MessageRead m)
  then show ?thesis by (simp add: moves_handle_message_read)
qed (simp_all add: moves_handle_typing_start moves_handle_typing_stop
        moves_handle_update_last_read_time moves_handle_status_check)

lemma tracking_ok_same:
  "message_tracking t = message_tracking s \<Longrightarrow> tracking_ok t = tracking_ok s"
  by (simp add: tracking_ok_def)

lemma tracking_ok_created:
  "tracking_ok s \<Longrightarrow>
     tracking_ok (s\<lparr>message_tracking := fmupd mid (new_record w sender d now) (message_tracking s)\<rparr>)"
  by (auto simp: tracking_ok_def tracked_ok_new_record split: if_splits)

lemma senders_ok_moves:
  assumes m: "moves M s t" and ok: "senders_ok s"
  shows "senders_ok t"
proof -
  have rec: "mid \<noteq> [] \<and> sender_ws j < next_socket t
             \<and> (sender_ws j |\<in>| serving t \<longrightarrow> authenticated_users t (sender_ws j) \<noteq> None)"
    if j: "fmlookup (message_tracking t) mid = Some j" for mid j
  proof (cases "fmlookup (message_tracking s) mid")
    case None
    with movesD(1) [OF m] j show ?thesis by simp
  next
    case (Some i)
    then obtain k where k: "fmlookup (message_tracking t) mid = Some k" "progress M i k"
      using movesD(2) [OF m] by blast
    with j have "sender_ws j = sender_ws i" using progressD(1) by auto
    moreover have "mid \<noteq> [] \<and> sender_ws i < next_socket s
             \<and> (sender_ws i |\<in>| serving s \<longrightarrow> authenticated_users s (sender_ws i) \<noteq> None)"
      using ok Some unfolding senders_ok_def by blast
    ultimately show ?thesis using movesD(3-5) [OF m] by simp
  qed
  have "w |\<in>| serving t \<Longrightarrow> w < next_socket t" for w
    using ok movesD(4,5) [OF m] by (simp add: senders_ok_def)
  with rec show ?thesis unfolding senders_ok_def by blast
qed

lemma senders_ok_created:
  assumes "senders_ok s" and "w |\<in>| serving s" and "authenticated_users s w = Some sender"
    and "truthy (sc_id d)"
  shows "senders_ok (s\<lparr>message_tracking :=
            fmupd (the (sc_id d)) (new_record w sender d now) (message_tracking s)\<rparr>)"
proof -
  have "the (sc_id d) \<noteq> []" using assms(4) by (auto simp: truthy_def split: option.splits)
  moreover have "w < next_socket s" using assms(1,2) by (simp add: senders_ok_def)
  moreover have "sender_ws (new_record w sender d now) = w" by (simp add: new_record_def)
  ultimately show ?thesis
    using assms(1,3) unfolding senders_ok_def by (auto split: if_splits)
qed

lemma senders_ok_login:
  assumes "senders_ok s"
  shows "senders_ok (state_of (fst (handle_login env dead w tok s)))"
proof -
  let ?t = "state_of (fst (handle_login env dead w tok s))"
  note h = handle_login_state [of env dead w tok s]
  have "authenticated_users s x \<noteq> None \<Longrightarrow> authenticated_users ?t x \<noteq> None" for x
    using h by auto
  then show ?thesis
    using assms h unfolding senders_ok_def by metis
qed

lemma dispatch_cases:
  obtains (login) tok where "ev = Login tok"
  | (send) d where "ev = SendChat d"
  | (other) "moves {w} s (state_of (fst (dispatch env dead now w ev s)))"
proof (cases "(\<exists>tok. ev = Login tok) \<or> (\<exists>d. ev = SendChat d)")
  case True
  then show ?thesis using login send by blast
next
  case False
  then have "moves {w} s (state_of (fst (dispatch env dead now w ev s)))"
    by (intro dispatch_moves) blast+
  then show ?thesis by (rule other)
qed

lemma dispatch_senders_ok:
  assumes "senders_ok s" and "w |\<in>| serving s"
  shows "senders_ok (state_of (fst (dispatch env dead now w ev s)))"
proof (cases rule: dispatch_cases [where ev = ev and w = w and s = s and env = env and dead = dead and now = now])
  case (login tok)
  then show ?thesis using assms(1) by (simp add: senders_ok_login)
next
  case (send d)
  let ?t = "state_of (handle_send_chat env dead now w d s)"
  from handle_send_chat_state [of env dead now w d s]
  have "senders_ok ?t"
  proof
    assume "?t = s"
    with assms(1) show ?thesis by simp
  next
    assume "\<exists>sender. authenticated_users s w = Some sender \<and> truthy (sc_id d)
         \<and> moves {} (s\<lparr>message_tracking :=
                         fmupd (the (sc_id d)) (new_record w sender d now) (message_tracking s)\<rparr>) ?t"
    then obtain sender where t: "authenticated_users s w = Some sender" "truthy (sc_id d)"
      "moves {} (s\<lparr>message_tracking :=
                         fmupd (the (sc_id d)) (new_record w sender d now) (message_tracking s)\<rparr>) ?t"
      by blast
    from t(3) senders_ok_created [OF assms t(1,2)] show ?thesis by (rule senders_ok_moves)
  qed
  with send show ?thesis by simp
next
  case other
  then show ?thesis using assms(1) by (rule senders_ok_moves)
qed

lemma dispatch_control:
  "serving (state_of (fst (dispatch env dead now w ev s))) = serving s
   \<and> next_socket (state_of (fst (dispatch env dead now w ev s))) = next_socket s"
proof (cases rule: dispatch_cases [where ev = ev and w = w and s = s and env = env and dead = dead and now = now])
  case (login tok)
  then show ?thesis using handle_login_state [of env dead w tok s] by simp
next
  case (send d)
  let ?t = "state_of (handle_send_chat env dead now w d s)"
  from handle_send_chat_state [of env dead now w d s]
  have "serving ?t = serving s \<and> next_socket ?t = next_socket s"
  proof
    assume "?t = s"
    then show ?thesis by simp
  next
    assume "\<exists>sender. authenticated_users s w = Some sender \<and> truthy (sc_id d)
         \<and> moves {} (s\<lparr>message_tracking :=
                         fmupd (the (sc_id d)) (new_record w sender d now) (message_tracking s)\<rparr>) ?t"
    then obtain sender where
      "moves {} (s\<lparr>message_tracking :=
                         fmupd (the (sc_id d)) (new_record w sender d now) (message_tracking s)\<rparr>) ?t"
      by blast
    from movesD(4,5) [OF this] show ?thesis by simp
  qed
  with send show ?thesis by simp
next
  case other
  from movesD(4,5) [OF this] show ?thesis by simp
qed

lemma dispatch_tracking_ok:
  assumes "tracking_ok s"
  shows "tracking_ok (state_of (fst (dispatch env dead now w ev s)))"
proof (cases rule: dispatch_cases [where ev = ev and w = w and s = s and env = env and dead = dead and now = now])
  case (login tok)
  then show ?thesis
    using handle_login_state [of env dead w tok s] assms
      tracking_ok_same [of "state_of (fst (handle_login env dead w tok s))" s]
    by simp
next
  case (send d)
  let ?t = "state_of (handle_send_chat env dead now w d s)"
  from handle_send_chat_state [of env dead now w d s]
  have "tracking_ok ?t"
  proof
    assume "?t = s"
    with assms show ?thesis by simp
  next
    assume "\<exists>sender. authenticated_users s w = Some sender \<and> truthy (sc_id d)
         \<and> moves {} (s\<lparr>message_tracking :=
                         fmupd (the (sc_id d)) (new_record w sender d now) (message_tracking s)\<rparr>) ?t"
    then obtain sender where
      "moves {} (s\<lparr>message_tracking :=
                         fmupd (the (sc_id d)) (new_record w sender d now) (message_tracking s)\<rparr>) ?t"
      by blast
    from movesD(6) [OF this tracking_ok_created [OF assms]] show ?thesis .
  qed
  with send show ?thesis by simp
next
  case other
  from movesD(6) [OF this assms] show ?thesis .
qed

lemma dispatch_progress:
  assumes "fmlookup (message_tracking s) mid = Some i"
    and "\<And>d. ev = SendChat d \<Longrightarrow> sc_id d \<noteq> Some mid"
  shows "\<exists>k. fmlookup (message_tracking (state_of (fst (dispatch env dead now w ev s)))) mid = Some k
            \<and> progress (manual_readers (Receive dead now w ev)) i k"
proof (cases ev)
  case (Login tok)
  then show ?thesis
    using handle_login_state [of env dead w tok s] assms(1) by simp
next
  case (SendChat d)
  let ?t = "state_of (handle_send_chat env dead now w d s)"
  have M: "manual_readers (Receive dead now w ev) = {}"
    using SendChat by (simp add: manual_readers_def)
  from handle_send_chat_state [of env dead now w d s]
  show ?thesis
  proof
    assume "?t = s"
    with assms(1) SendChat show ?thesis by simp
  next
    assume "\<exists>sender. authenticated_users s w = Some sender \<and> truthy (sc_id d)
         \<and> moves {} (s\<lparr>message_tracking :=
                         fmupd (the (sc_id d)) (new_record w sender d now) (message_tracking s)\<rparr>) ?t"
    then obtain sender where t: "truthy (sc_id d)"
      "moves {} (s\<lparr>message_tracking :=
                         fmupd (the (sc_id d)) (new_record w sender d now) (message_tracking s)\<rparr>) ?t"
      by blast
    have "the (sc_id d) \<noteq> mid"
      using t(1) assms(2) [OF SendChat] by (auto simp: truthy_def split: option.splits)
    then have "fmlookup (message_tracking (s\<lparr>message_tracking :=
                  fmupd (the (sc_id d)) (new_record w sender d now) (message_tracking s)\<rparr>)) mid = Some i"
      using assms(1) by simp
    from movesD(2) [OF t(2) this] show ?thesis using SendChat M by simp
  qed
next
  case (MessageRead m)
  then have M: "manual_readers (Receive dead now w ev) = {w}"
    by (simp add: manual_readers_def)
  show ?thesis
    using movesD(2) [OF dispatch_moves [of ev w s env dead now] assms(1)] MessageRead M by simp
next
  case (TypingStart c)
  then have M: "manual_readers (Receive dead now w ev) = {}" by (simp add: manual_readers_def)
  have "moves {} s (state_of (fst (dispatch env dead now w ev s)))"
    using TypingStart by (simp add: moves_handle_typing_start)
  from movesD(2) [OF this assms(1)] M show ?thesis by simp
next
  case (TypingStop c)
  then have M: "manual_readers (Receive dead now w ev) = {}" by (simp add: manual_readers_def)
  have "moves {} s (state_of (fst (dispatch env dead now w ev s)))"
    using TypingStop by (simp add: moves_handle_typing_stop)
  from movesD(2) [OF this assms(1)] M show ?thesis by simp
next
  case (UpdateLastReadTime t)
  then have M: "manual_readers (Receive dead now w ev) = {}" by (simp add: manual_readers_def)
  have "moves {} s (state_of (fst (dispatch env dead now w ev s)))"
    using UpdateLastReadTime by (simp add: moves_handle_update_last_read_time)
  from movesD(2) [OF this assms(1)] M show ?thesis by simp
next
  case (StatusCheck u)
  then have M: "manual_readers (Receive dead now w ev) = {}" by (simp add: manual_readers_def)
  have "moves {} s (state_of (fst (dispatch env dead now w ev s)))"
    using StatusCheck by (simp add: moves_handle_status_check)
  from movesD(2) [OF this assms(1)] M show ?thesis by simp
next
  case (UnknownEvent n)
  then have M: "manual_readers (Receive dead now w ev) = {}" by (simp add: manual_readers_def)
  have "moves {} s (state_of (fst (dispatch env dead now w ev s)))"
    using UnknownEvent by simp
  from movesD(2) [OF this assms(1)] M show ?thesis by simp
qed

lemma tracked_ok_strip: "tracked_ok i \<Longrightarrow> tracked_ok (strip w i)"
proof -
  assume ok: "tracked_ok i"
  have 1: "status (strip w i) = status i" "receiver_id (strip w i) = receiver_id i"
    "delivered_to (strip w i) = delivered_to i |-| {|w|}"
    "recipients (strip w i) = recipients i |-| {|w|}"
    by (simp_all add: strip_def)
  have 2: "delivered_to i |-| {|w|} \<noteq> {||} \<Longrightarrow> delivered_to i \<noteq> {||}" by auto
  have 3: "recipients i |\<subseteq>| delivered_to i
            \<Longrightarrow> recipients i |-| {|w|} |\<subseteq>| delivered_to i |-| {|w|}" by auto
  show ?thesis
    using ok 2 3 unfolding tracked_ok_def 1 by blast
qed

lemma tracking_ok_end_of_loop:
  assumes "tracking_ok s"
  shows "tracking_ok (fst (end_of_loop env dead w s))"
  unfolding tracking_ok_def
proof (intro allI impI)
  fix mid j
  assume "fmlookup (message_tracking (fst (end_of_loop env dead w s))) mid = Some j"
  then obtain i where "fmlookup (message_tracking s) mid = Some i" "j = strip w i"
    by (auto simp: end_of_loop_state)
  with assms show "tracked_ok j" by (simp add: tracking_ok_def tracked_ok_strip)
qed

lemma senders_ok_end_of_loop:
  assumes ok: "senders_ok s"
  shows "senders_ok (fst (end_of_loop env dead w s))"
proof -
  let ?t = "fst (end_of_loop env dead w s)"
  have rec: "mid \<noteq> [] \<and> sender_ws j < next_socket ?t
             \<and> (sender_ws j |\<in>| serving ?t \<longrightarrow> authenticated_users ?t (sender_ws j) \<noteq> None)"
    if "fmlookup (message_tracking ?t) mid = Some j" for mid j
  proof -
    from that obtain i where i: "fmlookup (message_tracking s) mid = Some i" "j = strip w i"
      by (auto simp: end_of_loop_state)
    have s: "sender_ws j = sender_ws i" using i(2) by (simp add: strip_def)
    have "mid \<noteq> [] \<and> sender_ws i < next_socket s
             \<and> (sender_ws i |\<in>| serving s \<longrightarrow> authenticated_users s (sender_ws i) \<noteq> None)"
      using ok i(1) unfolding senders_ok_def by blast
    then show ?thesis by (auto simp: s end_of_loop_state)
  qed
  have "x |\<in>| serving ?t \<Longrightarrow> x < next_socket ?t" for x
    using ok by (simp add: senders_ok_def end_of_loop_state)
  with rec show ?thesis unfolding senders_ok_def by blast
qed

lemma senders_ok_accept:
  assumes ok: "senders_ok s"
  shows "senders_ok (s\<lparr>connected_clients := finsert (next_socket s) (connected_clients s),
                        serving := finsert (next_socket s) (serving s),
                        next_socket := Suc (next_socket s)\<rparr>)"
proof -
  have rec: "mid \<noteq> [] \<and> sender_ws i < next_socket s
             \<and> (sender_ws i |\<in>| serving s \<longrightarrow> authenticated_users s (sender_ws i) \<noteq> None)"
    if "fmlookup (message_tracking s) mid = Some i" for mid i
    using ok that unfolding senders_ok_def by blast
  have srv: "x |\<in>| serving s \<Longrightarrow> x < next_socket s" for x
    using ok by (simp add: senders_ok_def)
  have new: "sender_ws i \<noteq> next_socket s"
    if "fmlookup (message_tracking s) mid = Some i" for mid i
    using rec [OF that] by simp
  show ?thesis
    unfolding senders_ok_def using rec srv new by (auto simp: less_Suc_eq)
qed

lemma tracking_ok_websocket_handler:
  assumes "tracking_ok s"
  shows "tracking_ok (fst (websocket_handler env ev s))"
proof (cases ev)
  case Accept
  then show ?thesis using assms by (simp add: tracking_ok_def)
next
  case (Receive dead now w e)
  have a: "tracking_ok (state_of (fst (dispatch env dead now w e s)))"
    using assms by (rule dispatch_tracking_ok)
  then have "tracking_ok (fst (end_of_loop env dead w (state_of (fst (dispatch env dead now w e s)))))"
    by (rule tracking_ok_end_of_loop)
  with a assms show ?thesis
    unfolding Receive websocket_handler_receive by simp
next
  case (Disconnected dead w)
  then show ?thesis using assms by (simp add: tracking_ok_end_of_loop)
qed

lemma senders_ok_websocket_handler:
  assumes "senders_ok s"
  shows "senders_ok (fst (websocket_handler env ev s))"
proof (cases ev)
  case Accept
  then show ?thesis using senders_ok_accept [OF assms] by simp
next
  case (Receive dead now w e)
  show ?thesis
  proof (cases "w |\<in>| serving s")
    case False
    then show ?thesis using assms unfolding Receive websocket_handler_receive by simp
  next
    case True
    have a: "senders_ok (state_of (fst (dispatch env dead now w e s)))"
      using assms True by (rule dispatch_senders_ok)
    then have "senders_ok (fst (end_of_loop env dead w (state_of (fst (dispatch env dead now w e s)))))"
      by (rule senders_ok_end_of_loop)
    with a True show ?thesis
      unfolding Receive websocket_handler_receive by simp
  qed
next
  case (Disconnected dead w)
  then show ?thesis using assms by (simp add: senders_ok_end_of_loop)
qed

lemma legacy_run_invariants:
  "tracking_ok s \<Longrightarrow> senders_ok s
     \<Longrightarrow> tracking_ok (legacy_run env evs s) \<and> senders_ok (legacy_run env evs s)"
  unfolding legacy_run_def
  by (induction evs arbitrary: s)
     (simp_all add: tracking_ok_websocket_handler senders_ok_websocket_handler)

lemma init_legacy_invariants: "tracking_ok init_legacy" "senders_ok init_legacy"
  by (simp_all add: tracking_ok_def senders_ok_def init_legacy_def)

text \<open>
  C5. In every state the legacy transport can reach, when a socket that is still served
  sends \<open>message_read\<close> for a tracked message of which it is the sender, the handler's
  only action is the 403 reply to that socket, and the state, the \<open>read_by\<close> set of the
  message included, is unchanged. When the socket itself is dead the reply raises; the
  state is unchanged all the same.
\<close>

theorem C5_own_message_read_rejected:
  assumes "s = legacy_run env evs init_legacy"
    and "w |\<in>| serving s"
    and "fmlookup (message_tracking s) mid = Some i"
    and "sender_ws i = w"
  shows "handle_message_read dead w (Some mid) s
           = (if w \<in> dead then (Some TransportError, s, [])
              else (None, s, [(w, Reply 403 ''Cannot mark own message as read'')]))"
proof -
  have "senders_ok s"
    using legacy_run_invariants [OF init_legacy_invariants] assms(1) by simp
  then have "mid \<noteq> []" and "authenticated_users s w \<noteq> None"
    using assms(2-4) unfolding senders_ok_def by blast+
  then obtain reader where "authenticated_users s w = Some reader" and "truthy (Some mid)"
    by (auto simp: truthy_def)
  then show ?thesis
    using assms(3,4) by (simp add: handle_message_read_def send_text_def)
qed

lemma sent_example_facts:
  "0 |\<in>| serving sent_example"
  "map_option sender_ws (fmlookup (message_tracking sent_example) ''m1'') = Some 0"
  by code_simp+

theorem C5_own_message_read_rejected_witness:
  "0 |\<in>| serving sent_example
   \<and> map_option sender_ws (fmlookup (message_tracking sent_example) ''m1'') = Some 0
   \<and> handle_message_read {} 0 (Some ''m1'') sent_example
       = (None, sent_example, [(0, Reply 403 ''Cannot mark own message as read'')])"
proof -
  obtain i where i: "fmlookup (message_tracking sent_example) ''m1'' = Some i" "sender_ws i = 0"
    using sent_example_facts(2) by auto
  show ?thesis
    using C5_own_message_read_rejected [OF sent_example_def sent_example_facts(1) i, of "{}"]
      sent_example_facts
    by simp
qed

section \<open>Delivery status over time\<close>

text \<open>
  C6 as stated fails, in two ways.

  The status moves backwards. After \<open>delivered_example\<close> the record of m1 has the status
  delivered. Alice sends \<open>send_chat\<close> with the id m1 again, to Carol, who is not
  connected: \<open>handle_send_chat\<close> stores a new record under m1 without looking at the old
  one, and the status of m1 is sent.

  A connection is in \<open>read_by\<close> without a delivery. Alice sends m1 to Bob while Bob is not
  connected, so the direct delivery path runs and leaves the status at sent; Bob then
  connects and confirms reading m1. Bob's connection is in \<open>read_by\<close> although the message
  was never delivered: the status is sent and \<open>delivered_to\<close> is empty.
\<close>

theorem C6_regression_and_undelivered_read:
  "status_at (legacy_run example_env delivered_example init_legacy) ''m1'' = Some ''delivered''
   \<and> replaces resend_example ''m1''
   \<and> status_at (fst (websocket_handler example_env resend_example
                      (legacy_run example_env delivered_example init_legacy))) ''m1''
       = Some ''sent''
   \<and> status_rank ''sent'' < status_rank ''delivered''
   \<and> authenticated_users unread_example 1 = Some ''bob''
   \<and> map_option (\<lambda>i. (receiver_id i, status i, delivered_to i, read_by i))
        (fmlookup (message_tracking unread_example) ''m1'')
       = Some (Some ''bob'', ''sent'', {||}, {|1|})"
  by code_simp

text \<open>The status of a tracked message is written by \<open>handle_send_chat\<close> for that id only.\<close>

lemma status_at_same_tracking:
  "message_tracking t = message_tracking s \<Longrightarrow> status_at t = status_at s"
  by (rule ext) (simp add: status_at_def)

lemma status_at_fields [simp]:
  "status_at (s\<lparr>connected_clients := a\<rparr>) = status_at s"
  "status_at (s\<lparr>user_last_read_time := b\<rparr>) = status_at s"
  "status_at (s\<lparr>typing_users := x\<rparr>) = status_at s"
  "status_at (s\<lparr>user_typing_in := y\<rparr>) = status_at s"
  by (simp_all add: status_at_def fun_eq_iff)

lemma status_at_update_same:
  assumes "\<And>i. status (f i) = status i"
  shows "status_at (update_info m f s) = status_at s"
proof (rule ext)
  fix mid
  show "status_at (update_info m f s) mid = status_at s mid"
    by (cases "fmlookup (message_tracking s) m") (simp_all add: status_at_def update_info_lookup assms)
qed

lemma status_at_update_other:
  "mid \<noteq> m \<Longrightarrow> status_at (update_info m f s) mid = status_at s mid"
  by (simp add: status_at_def update_info_lookup)

lemma status_at_auto_check_read_status:
  "status_at (state_of (auto_check_read_status env dead w m ts s)) = status_at s"
proof -
  let ?t = "state_of (auto_check_read_status env dead w m ts s)"
  from auto_check_read_status_state [of env dead w m ts s] show ?thesis
  proof
    assume "?t = s"
    then show ?thesis by simp
  next
    assume e: "?t = update_info m (\<lambda>i. i\<lparr>read_by := finsert w (read_by i)\<rparr>) s"
    show ?thesis unfolding e by (rule status_at_update_same) simp
  qed
qed

lemma status_at_deliver_to_user:
  assumes "mid \<noteq> m"
  shows "status_at (state_of (deliver_to_user env dead m r s)) mid = status_at s mid"
proof (cases "fmlookup (message_tracking s) m")
  case None
  then show ?thesis by (simp add: deliver_to_user_def)
next
  case (Some info)
  show ?thesis
  proof (cases "user_connections s r")
    case None
    with Some show ?thesis by (simp add: deliver_to_user_def)
  next
    case (Some w)
    let ?t = "update_info m
                (\<lambda>i. i\<lparr>recipients := finsert w (recipients i),
                        delivered_to := finsert w (delivered_to i),
                        status := ''delivered''\<rparr>) s"
    have t: "status_at ?t mid = status_at s mid"
      using assms by (rule status_at_update_other)
    have u: "status_at (state_of (auto_check_read_status env dead w m (timestamp info) ?t)) mid
               = status_at s mid"
      using t by (simp add: status_at_auto_check_read_status)
    show ?thesis
      using Some \<open>fmlookup (message_tracking s) m = Some info\<close> t u
      by (simp add: deliver_to_user_def state_of_and_then fst_send_text)
  qed
qed

lemma status_at_broadcast_message_loop:
  "status_at (fst (snd (broadcast_message_loop env dead sender m ts ws s n out))) = status_at s"
proof (induction ws arbitrary: s n out)
  case Nil
  then show ?case by simp
next
  case (Cons w ws)
  let ?t = "state_of (auto_check_read_status env dead w m ts
              (update_info m (\<lambda>i. i\<lparr>recipients := finsert w (recipients i)\<rparr>) s))"
  have "status_at (update_info m (\<lambda>i. i\<lparr>recipients := finsert w (recipients i)\<rparr>) s) = status_at s"
    by (rule status_at_update_same) simp
  then have st: "status_at ?t = status_at s"
    by (simp add: status_at_auto_check_read_status)
  have step: "status_at (fst (snd (broadcast_message_loop env dead sender m ts ws ?t n' out')))
                = status_at s" for n' out'
    using Cons.IH [of ?t n' out'] st by simp
  have gone: "status_at (s\<lparr>connected_clients := x\<rparr>) = status_at s" for x
    by (rule status_at_same_tracking) simp
  show ?case
    using Cons.IH [of s n out] step gone
    by (simp add: state_of_def case_prod_beta)
qed

lemma status_at_broadcast_message:
  assumes "mid \<noteq> m"
  shows "status_at (state_of (broadcast_message env dead sender m ts s)) mid = status_at s mid"
proof (cases "fmlookup (message_tracking s) m")
  case None
  then show ?thesis by (simp add: broadcast_message_def)
next
  case (Some info)
  obtain e t n out where loop:
    "broadcast_message_loop env dead sender m ts (visit_sockets env (connected_clients s)) s 0 []
       = (e, t, n, out)"
    by (metis prod_cases4)
  have t: "status_at t = status_at s"
    using status_at_broadcast_message_loop [of env dead sender m ts
        "visit_sockets env (connected_clients s)" s 0 "[]"] loop
    by simp
  have u: "status_at (update_info m (\<lambda>i. i\<lparr>status := ''delivered''\<rparr>) t) mid = status_at s mid"
    using assms t by (simp add: status_at_update_other)
  show ?thesis
    using Some loop t u
    by (cases e) (simp_all add: broadcast_message_def state_of_and_then)
qed

lemma status_at_handle_send_chat:
  assumes "sc_id d \<noteq> Some mid"
  shows "status_at (state_of (handle_send_chat env dead now w d s)) mid = status_at s mid"
proof (cases "authenticated_users s w")
  case None
  then show ?thesis by (simp add: handle_send_chat_def)
next
  case (Some sender)
  show ?thesis
  proof (cases "truthy (sc_id d)")
    case False
    with Some show ?thesis by (simp add: handle_send_chat_def)
  next
    case True
    let ?mid = "the (sc_id d)"
    let ?s1 = "s\<lparr>message_tracking := fmupd ?mid (new_record w sender d now) (message_tracking s)\<rparr>"
    let ?ts = "case sc_timestamp d of None \<Rightarrow> now | Some t \<Rightarrow> t"
    have ne: "mid \<noteq> ?mid"
      using True assms by (auto simp: truthy_def split: option.splits)
    then have s1: "status_at ?s1 mid = status_at s mid"
      by (simp add: status_at_def)
    have direct: "status_at (state_of (deliver_to_user env dead ?mid r ?s1)) mid = status_at s mid" for r
      using status_at_deliver_to_user [OF ne, of env dead r ?s1] s1 by simp
    have bc: "status_at (state_of (broadcast_message env dead w ?mid ?ts ?s1)) mid = status_at s mid"
      using status_at_broadcast_message [OF ne, of env dead w ?ts ?s1] s1 by simp
    have st: "state_of (handle_send_chat env dead now w d s)
                = (if w \<in> dead then ?s1
                   else if truthy (sc_receiver_id d)
                   then state_of (deliver_to_user env dead ?mid (the (sc_receiver_id d)) ?s1)
                   else state_of (broadcast_message env dead w ?mid ?ts ?s1))"
      using Some True
      by (simp add: handle_send_chat_def Let_def state_of_and_then fst_send_text new_record_def)
    show ?thesis
      unfolding st using s1 direct bc by simp
  qed
qed

lemma status_at_auto_read_loop:
  "status_at (fst (auto_read_loop env dead w reader lrt mids s out)) = status_at s"
proof (induction mids arbitrary: s out)
  case Nil
  then show ?case by simp
next
  case (Cons m mids)
  show ?case
  proof (cases "fmlookup (message_tracking s) m")
    case None
    then show ?thesis using Cons.IH by simp
  next
    case (Some info)
    let ?t = "update_info m (\<lambda>i. i\<lparr>read_by := finsert w (read_by i)\<rparr>) s"
    have t: "status_at ?t = status_at s"
      by (rule status_at_update_same) simp
    have "status_at (fst (auto_read_loop env dead w reader lrt mids ?t out')) = status_at s" for out'
      using Cons.IH [of ?t out'] t by simp
    then show ?thesis
      using Some Cons.IH [of s out] by (simp add: Let_def)
  qed
qed

lemma status_at_check_all_messages_for_auto_read:
  "status_at (state_of (check_all_messages_for_auto_read env dead w lrt s)) = status_at s"
  using status_at_auto_read_loop [of env dead w]
  by (simp add: check_all_messages_for_auto_read_def state_of_def case_prod_beta unchanged_def)

lemma status_at_handle_update_last_read_time:
  "status_at (state_of (handle_update_last_read_time env dead w t s)) = status_at s"
proof -
  have "status_at (state_of (check_all_messages_for_auto_read env dead w lrt
                     (s\<lparr>user_last_read_time := x\<rparr>))) = status_at s" for lrt x
    using status_at_same_tracking [of "s\<lparr>user_last_read_time := x\<rparr>" s]
    by (simp add: status_at_check_all_messages_for_auto_read)
  then show ?thesis by (simp add: handle_update_last_read_time_def)
qed

lemma status_at_handle_message_read:
  "status_at (state_of (handle_message_read dead w m s)) = status_at s"
proof -
  have "status_at (update_info mid (\<lambda>i. i\<lparr>read_by := finsert w (read_by i)\<rparr>) s) = status_at s"
    for mid
    by (rule status_at_update_same) simp
  then show ?thesis
    by (simp add: handle_message_read_def state_of_and_then split: option.splits)
qed

lemma status_at_handle_typing_start:
  "status_at (state_of (handle_typing_start env dead w c s)) = status_at s"
proof -
  have "status_at (fst (broadcast_typing_event env dead c' u n
                     (s\<lparr>typing_users := x, user_typing_in := y\<rparr>))) = status_at s" for c' u n x y
    by (rule status_at_same_tracking) simp
  then show ?thesis
    by (simp add: handle_typing_start_def state_of_and_then Let_def split: option.splits)
qed

lemma status_at_handle_typing_stop:
  "status_at (state_of (handle_typing_stop env dead w c s)) = status_at s"
proof -
  have a: "status_at (fst (broadcast_typing_event env dead c' u n
                     (s\<lparr>typing_users := x, user_typing_in := y\<rparr>))) = status_at s" for c' u n x y
    by (rule status_at_same_tracking) simp
  have b: "status_at (fst (broadcast_typing_event env dead c' u n
                     (s\<lparr>typing_users := x\<rparr>))) = status_at s" for c' u n x
    by (rule status_at_same_tracking) simp
  show ?thesis
    using a b
    by (simp add: handle_typing_stop_def state_of_and_then Let_def split: option.splits)
qed

lemma status_at_handle_login:
  "status_at (state_of (fst (handle_login env dead w tok s))) = status_at s"
  using handle_login_state [of env dead w tok s] by (intro status_at_same_tracking) simp

lemma status_at_dispatch:
  assumes "\<And>d. ev = SendChat d \<Longrightarrow> sc_id d \<noteq> Some mid"
  shows "status_at (state_of (fst (dispatch env dead now w ev s))) mid = status_at s mid"
proof (cases ev)
  case (Login tok)
  then show ?thesis by (simp add: status_at_handle_login)
next
  case (SendChat d)
  then show ?thesis using assms by (simp add: status_at_handle_send_chat)
next
  case (TypingStart c)
  then show ?thesis by (simp add: status_at_handle_typing_start)
next
  case (TypingStop c)
  then show ?thesis by (simp add: status_at_handle_typing_stop)
next
  case (MessageRead m)
  then show ?thesis by (simp add: status_at_handle_message_read)
next
  case (UpdateLastReadTime t)
  then show ?thesis by (simp add: status_at_handle_update_last_read_time)
next
  case (StatusCheck u)
  then show ?thesis by (simp add: handle_status_check_def)
next
  case (UnknownEvent n)
  then show ?thesis by simp
qed

lemma status_at_end_of_loop:
  "status_at (fst (end_of_loop env dead w s)) = status_at s"
proof (rule ext)
  fix mid
  show "status_at (fst (end_of_loop env dead w s)) mid = status_at s mid"
    by (cases "fmlookup (message_tracking s) mid")
       (simp_all add: status_at_def end_of_loop_state strip_def)
qed

lemma status_at_websocket_handler:
  assumes "\<not> replaces ev mid"
  shows "status_at (fst (websocket_handler env ev s)) mid = status_at s mid"
proof (cases ev)
  case Accept
  then show ?thesis by (simp add: status_at_def)
next
  case (Disconnected dead w)
  then show ?thesis by (simp add: status_at_end_of_loop)
next
  case (Receive dead now w e)
  have "sc_id d \<noteq> Some mid" if "e = SendChat d" for d
    using assms that Receive by (simp add: replaces_def)
  then have "status_at (state_of (fst (dispatch env dead now w e s))) mid = status_at s mid"
    by (rule status_at_dispatch)
  then show ?thesis
    unfolding Receive websocket_handler_receive by (simp add: status_at_end_of_loop)
qed

text \<open>
  What one event does to the record of a tracked message: the record makes progress and
  may then lose the socket whose loop ended; a \<open>send_chat\<close> that reuses the id makes the
  progress start from a new record, which nobody has read.
\<close>

lemma step_progress_kept:
  assumes ok: "tracking_ok s" and i: "fmlookup (message_tracking s) mid = Some i"
    and nr: "\<not> replaces ev mid"
  shows "\<exists>k j. fmlookup (message_tracking (fst (websocket_handler env ev s))) mid = Some j
           \<and> progress (manual_readers ev) i k \<and> tracked_ok k
           \<and> (j = k \<or> (\<exists>w. j = strip w k))"
proof -
  have oki: "tracked_ok i" using ok i by (simp add: tracking_ok_def)
  show ?thesis
  proof (cases ev)
    case Accept
    then have "fmlookup (message_tracking (fst (websocket_handler env ev s))) mid = Some i"
      using i by simp
    then show ?thesis using oki progress_refl by blast
  next
    case (Disconnected dead w)
    show ?thesis
    proof (cases "w |\<in>| serving s")
      case True
      then have "fmlookup (message_tracking (fst (websocket_handler env ev s))) mid = Some (strip w i)"
        using i Disconnected by (simp add: end_of_loop_state)
      then show ?thesis using oki progress_refl by blast
    next
      case False
      then have "fmlookup (message_tracking (fst (websocket_handler env ev s))) mid = Some i"
        using i Disconnected by simp
      then show ?thesis using oki progress_refl by blast
    qed
  next
    case (Receive dead now w e)
    show ?thesis
    proof (cases "w |\<in>| serving s")
      case False
      then have "fst (websocket_handler env ev s) = s"
        unfolding Receive websocket_handler_receive by simp
      then have "fmlookup (message_tracking (fst (websocket_handler env ev s))) mid = Some i"
        using i by simp
      then show ?thesis using oki progress_refl by blast
    next
      case True
      let ?t = "state_of (fst (dispatch env dead now w e s))"
      have "sc_id d \<noteq> Some mid" if "e = SendChat d" for d
        using nr that Receive by (simp add: replaces_def)
      then obtain k where k: "fmlookup (message_tracking ?t) mid = Some k"
        "progress (manual_readers (Receive dead now w e)) i k"
        using dispatch_progress [OF i, of e env dead now w] by blast
      have "tracking_ok ?t" using ok by (rule dispatch_tracking_ok)
      with k(1) have okk: "tracked_ok k" by (simp add: tracking_ok_def)
      have "fst (websocket_handler env ev s) = ?t
            \<or> fst (websocket_handler env ev s) = fst (end_of_loop env dead w ?t)"
        unfolding Receive websocket_handler_receive using True by simp
      then have "fmlookup (message_tracking (fst (websocket_handler env ev s))) mid = Some k
            \<or> fmlookup (message_tracking (fst (websocket_handler env ev s))) mid = Some (strip w k)"
        using k(1) by (auto simp: end_of_loop_state)
      then show ?thesis using k(2) okk Receive by blast
    qed
  qed
qed

lemma step_progress_replaced:
  assumes ok: "tracking_ok s" and i: "fmlookup (message_tracking s) mid = Some i"
    and r: "replaces ev mid"
  shows "\<exists>i0 k j. fmlookup (message_tracking (fst (websocket_handler env ev s))) mid = Some j
           \<and> progress (manual_readers ev) i0 k \<and> tracked_ok k
           \<and> (j = k \<or> (\<exists>w. j = strip w k))
           \<and> (i0 = i \<or> read_by i0 = {||})"
proof -
  have oki: "tracked_ok i" using ok i by (simp add: tracking_ok_def)
  from r obtain dead now w e where ev: "ev = Receive dead now w e"
    by (cases ev) (simp_all add: replaces_def)
  from r ev obtain d where e: "e = SendChat d" and id: "sc_id d = Some mid"
    by (cases e) (simp_all add: replaces_def)
  have M: "manual_readers ev = {}"
    using ev e by (simp add: manual_readers_def)
  show ?thesis
  proof (cases "w |\<in>| serving s")
    case False
    then have "fst (websocket_handler env ev s) = s"
      unfolding ev websocket_handler_receive by simp
    then have "fmlookup (message_tracking (fst (websocket_handler env ev s))) mid = Some i"
      using i by simp
    then show ?thesis using oki progress_refl by blast
  next
    case True
    let ?t = "state_of (handle_send_chat env dead now w d s)"
    have t: "state_of (fst (dispatch env dead now w e s)) = ?t"
      using e by simp
    have okt: "tracking_ok ?t"
      using dispatch_tracking_ok [OF ok, of env dead now w e] t by simp
    have "\<exists>i0 k. fmlookup (message_tracking ?t) mid = Some k \<and> progress {} i0 k
             \<and> (i0 = i \<or> read_by i0 = {||})"
      using handle_send_chat_state [of env dead now w d s]
    proof
      assume "?t = s"
      then have "fmlookup (message_tracking ?t) mid = Some i" using i by simp
      then show ?thesis using progress_refl by blast
    next
      assume "\<exists>sender. authenticated_users s w = Some sender \<and> truthy (sc_id d)
         \<and> moves {} (s\<lparr>message_tracking :=
                         fmupd (the (sc_id d)) (new_record w sender d now) (message_tracking s)\<rparr>) ?t"
      then obtain sender where m:
        "moves {} (s\<lparr>message_tracking :=
                         fmupd (the (sc_id d)) (new_record w sender d now) (message_tracking s)\<rparr>) ?t"
        by blast
      have "fmlookup (message_tracking (s\<lparr>message_tracking :=
                  fmupd (the (sc_id d)) (new_record w sender d now) (message_tracking s)\<rparr>)) mid
              = Some (new_record w sender d now)"
        using id by simp
      from movesD(2) [OF m this]
      obtain k where k: "fmlookup (message_tracking ?t) mid = Some k"
        "progress {} (new_record w sender d now) k"
        by blast
      have "read_by (new_record w sender d now) = {||}" by (simp add: new_record_def)
      with k show ?thesis by blast
    qed
    then obtain i0 k where k: "fmlookup (message_tracking ?t) mid = Some k" "progress {} i0 k"
      "i0 = i \<or> read_by i0 = {||}"
      by blast
    from okt k(1) have okk: "tracked_ok k" by (simp add: tracking_ok_def)
    have "fst (websocket_handler env ev s) = ?t
          \<or> fst (websocket_handler env ev s) = fst (end_of_loop env dead w ?t)"
      unfolding ev websocket_handler_receive using True t by simp
    then have "fmlookup (message_tracking (fst (websocket_handler env ev s))) mid = Some k
          \<or> fmlookup (message_tracking (fst (websocket_handler env ev s))) mid = Some (strip w k)"
      using k(1) by (auto simp: end_of_loop_state)
    then show ?thesis using k(2,3) okk M by auto
  qed
qed

lemma step_progress:
  assumes ok: "tracking_ok s" and i: "fmlookup (message_tracking s) mid = Some i"
  shows "\<exists>i0 k j. fmlookup (message_tracking (fst (websocket_handler env ev s))) mid = Some j
           \<and> progress (manual_readers ev) i0 k \<and> tracked_ok k
           \<and> (j = k \<or> (\<exists>w. j = strip w k))
           \<and> (i0 = i \<or> read_by i0 = {||})"
proof (cases "replaces ev mid")
  case True
  with ok i show ?thesis by (rule step_progress_replaced)
next
  case False
  from step_progress_kept [OF ok i False, of env] show ?thesis by blast
qed

lemma progress_then_strip:
  assumes p: "progress M i0 k" and okk: "tracked_ok k"
    and j: "j = k \<or> (\<exists>w. j = strip w k)"
    and i0: "i0 = i \<or> read_by i0 = {||}"
  shows "(status j = ''sent'' \<or> status j = ''delivered'')
       \<and> (delivered_to j \<noteq> {||} \<longrightarrow> status j = ''delivered'')
       \<and> (\<forall>x. x |\<in>| read_by j \<and> x |\<notin>| read_by i \<longrightarrow>
              x \<in> M \<or> (x |\<in>| recipients j
                        \<and> (truthy (receiver_id j) \<longrightarrow> x |\<in>| delivered_to j \<and> status j = ''delivered'')))"
proof -
  note pk = progressD [OF p]
  have okj: "tracked_ok j" using okk j tracked_ok_strip by blast
  have b: "status j = ''sent'' \<or> status j = ''delivered''"
    and c: "delivered_to j \<noteq> {||} \<longrightarrow> status j = ''delivered''"
    and sub: "truthy (receiver_id j) \<longrightarrow> recipients j |\<subseteq>| delivered_to j"
    using okj by (simp_all add: tracked_ok_def)
  have d: "x \<in> M \<or> (x |\<in>| recipients j
             \<and> (truthy (receiver_id j) \<longrightarrow> x |\<in>| delivered_to j \<and> status j = ''delivered''))"
    if x: "x |\<in>| read_by j" "x |\<notin>| read_by i" for x
  proof -
    have xk: "x |\<in>| read_by k" using x(1) j by (auto simp: strip_def)
    have x0: "x |\<notin>| read_by i0" using x(2) i0 by auto
    have keep: "x |\<in>| recipients k \<Longrightarrow> x |\<in>| recipients j"
      using x(1) j by (auto simp: strip_def)
    from pk(7) [OF xk x0] show ?thesis
    proof
      assume "x \<in> M"
      then show ?thesis by simp
    next
      assume "x |\<in>| recipients k"
      then have r: "x |\<in>| recipients j" by (rule keep)
      have "x |\<in>| delivered_to j \<and> status j = ''delivered''" if "truthy (receiver_id j)"
      proof -
        from that sub r have "x |\<in>| delivered_to j" by blast
        moreover from this have "delivered_to j \<noteq> {||}" by blast
        ultimately show ?thesis using c by blast
      qed
      with r show ?thesis by blast
    qed
  qed
  from b c d show ?thesis by blast
qed

text \<open>
  C6 (amended). In every state the legacy transport can reach, and for every event, a
  tracked message stays tracked and its status is sent or delivered, never read. The
  status is the one it had before the event, unless the event is a \<open>send_chat\<close> that
  stores a new record under the same message id: the status does not move on its own,
  forwards or backwards, once the event that created the record is over. A record with a
  non-empty \<open>delivered_to\<close> is delivered. A connection that the event adds to \<open>read_by\<close>
  is either the sender of a manual \<open>message_read\<close> event or is in \<open>recipients\<close>, and
  then, for a direct message, also in \<open>delivered_to\<close> with the status delivered.
\<close>

theorem C6_status_changes_only_on_resend:
  assumes "s = legacy_run env evs init_legacy"
    and "fmlookup (message_tracking s) mid = Some i"
  shows "\<exists>j. fmlookup (message_tracking (fst (websocket_handler env ev s))) mid = Some j
       \<and> (status j = ''sent'' \<or> status j = ''delivered'')
       \<and> (\<not> replaces ev mid \<longrightarrow> status j = status i)
       \<and> (delivered_to j \<noteq> {||} \<longrightarrow> status j = ''delivered'')
       \<and> (\<forall>x. x |\<in>| read_by j \<and> x |\<notin>| read_by i \<longrightarrow>
              x \<in> manual_readers ev
              \<or> (x |\<in>| recipients j
                 \<and> (truthy (receiver_id j) \<longrightarrow> x |\<in>| delivered_to j \<and> status j = ''delivered'')))"
proof -
  let ?t = "fst (websocket_handler env ev s)"
  have ok: "tracking_ok s"
    using legacy_run_invariants [OF init_legacy_invariants] assms(1) by simp
  from step_progress [OF ok assms(2), of env ev]
  obtain i0 k j where j: "fmlookup (message_tracking ?t) mid = Some j"
    and p: "progress (manual_readers ev) i0 k" and okk: "tracked_ok k"
    and jk: "j = k \<or> (\<exists>w. j = strip w k)" and i0: "i0 = i \<or> read_by i0 = {||}"
    by blast
  have same: "status j = status i" if "\<not> replaces ev mid"
    using status_at_websocket_handler [OF that, of env s] j assms(2)
    by (simp add: status_at_def)
  from progress_then_strip [OF p okk jk i0] j same show ?thesis by blast
qed

lemma delivered_example_tracked:
  "fmlookup (message_tracking (legacy_run example_env delivered_example init_legacy)) ''m1'' \<noteq> None"
  by code_simp

theorem C6_status_changes_only_on_resend_witness:
  "fmlookup (message_tracking (legacy_run example_env delivered_example init_legacy)) ''m1'' \<noteq> None
   \<and> \<not> replaces (Receive {} ''t3'' 1 (MessageRead (Some ''m1''))) ''m1''
   \<and> (\<exists>j. fmlookup (message_tracking
              (fst (websocket_handler example_env (Receive {} ''t3'' 1 (MessageRead (Some ''m1'')))
                     (legacy_run example_env delivered_example init_legacy)))) ''m1'' = Some j
          \<and> status j = status (the (fmlookup (message_tracking
                 (legacy_run example_env delivered_example init_legacy)) ''m1''))
          \<and> (status j = ''sent'' \<or> status j = ''delivered''))"
proof -
  let ?s = "legacy_run example_env delivered_example init_legacy"
  let ?ev = "Receive {} ''t3'' 1 (MessageRead (Some ''m1''))"
  have nr: "\<not> replaces ?ev ''m1''" by (simp add: replaces_def)
  have i: "fmlookup (message_tracking ?s) ''m1'' = Some (the (fmlookup (message_tracking ?s) ''m1''))"
    using delivered_example_tracked by simp
  from C6_status_changes_only_on_resend [OF refl i, of ?ev]
  show ?thesis using delivered_example_tracked nr by blast
qed

end
